theory Spec2Isabelle
  imports Complex_Main "HOL-Library.AList"
begin

section \<open>Data model of stream.js\<close>

text \<open>
  A row of the BtUser table, as the Sequelize instance the callbacks are bound to.
  The uid is the primary key, a decimal string. In the source one instance is shared by
  all the closures made for a user and \<open>reload\<close> refreshes it in place; here each
  closure holds the record. Outside the success callback of a reload only the uid and
  the tokens are read, and a reload does not change them.
\<close>

record bt_user =
  uid :: string
  access_token :: string
  access_token_secret :: string
  block_new_accounts :: bool
  block_low_followers :: bool
  deactivatedAt :: "nat option"

text \<open>
  A Twitter User object (JSON). \<open>created_at\<close> and \<open>followers_count\<close> are \<open>None\<close>
  when the field is absent (\<open>undefined\<close>).
\<close>

record twitter_user =
  id_str :: string
  screen_name :: string
  created_at :: "string option"
  followers_count :: "int option"

text \<open>A status of the mentions timeline; only its \<open>user\<close> field is read.\<close>

record status =
  status_user :: twitter_user

record disconnect_msg =
  disconnect_code :: int
  disconnect_reason :: string

record warning_msg =
  warning_code :: string
  warning_message :: string

text \<open>
  The parsed item handed to \<open>dataCallback\<close>: an object whose fields are each
  present or absent. The field \<open>data.x\<close> is \<open>data_x\<close>.
\<close>

record payload =
  data_disconnect :: "disconnect_msg option"
  data_warning :: "warning_msg option"
  data_event :: "string option"
  data_target :: "twitter_user option"
  data_text :: "string option"
  data_retweeted_status :: "status option"
  data_user :: "twitter_user option"

datatype cause = NEW_ACCOUNT | LOW_FOLLOWERS

datatype action_type = BLOCK

text \<open>One call \<open>actions.queueActions(source_uid, sink_uids, type, cause)\<close>.\<close>

record queued_action =
  source_uid :: string
  sink_uids :: "string list"
  qa_type :: action_type
  qa_cause :: cause

datatype level = Debug | Info | Warn | Error

text \<open>The values stored in \<open>streams\<close>: the number of the dummy entry, or a request.\<close>

datatype stream_val = Num int | Request nat

text \<open>
  The closures given to \<open>setTimeout\<close> and \<open>setInterval\<close>: the deferred deletion of
  \<open>endCallback\<close> (with the user and the stream it captured), the call of
  \<open>remoteUpdateBlocks\<close> of \<open>handleBlockEvent\<close>, and \<open>startStreams\<close> itself.
\<close>

datatype callback =
    DeleteStream bt_user "stream_val option"
  | UpdateBlocks bt_user
  | StartStreams

text \<open>
  A pending timer of the event loop: the object \<open>setTimeout\<close> returned, the time
  from which it may fire, the interval if it repeats, and its closure.
\<close>

record timer =
  tid :: nat
  due :: nat
  period :: "nat option"
  closure :: callback

text \<open>
  The state of the module and of the event loop around it. Timer and request objects
  are numbered by \<open>next_handle\<close>; the clock \<open>now\<close> counts milliseconds.
  \<open>queries\<close>, \<open>timelines\<close> and \<open>reloads\<close> are the asynchronous calls whose
  callback has not run yet, each with what its callback closes over; \<open>requests\<close> are
  the open streaming requests with the user their callbacks are bound to. \<open>queued\<close>, \<open>stored\<close>, \<open>verified\<close> and
  \<open>updated\<close> record the calls of \<open>actions.queueActions\<close>,
  \<open>updateUsers.storeUser\<close>, \<open>verifyCredentials\<close> and \<open>remoteUpdateBlocks\<close> (with
  the time of the call); \<open>notified\<close> records the calls of \<open>handleBlockEvent\<close>
  (time and uid) and \<open>evaluated\<close> the calls of \<open>checkReplyAndBlock\<close> (its two
  arguments).
\<close>

record world =
  now :: nat
  streams :: "string \<rightharpoonup> stream_val"
  updateBlocksTimers :: "string \<rightharpoonup> nat"
  timers :: "timer list"
  next_handle :: nat
  requests :: "(nat \<times> bt_user) list"
  queries :: "string set list"
  timelines :: "bt_user list"
  reloads :: "(bt_user \<times> twitter_user \<times> real option) list"
  queued :: "queued_action list"
  stored :: "twitter_user list"
  verified :: "string list"
  updated :: "(nat \<times> bt_user) list"
  notified :: "(nat \<times> string) list"
  evaluated :: "(bt_user \<times> twitter_user option) list"
  logged :: "(level \<times> string) list"

definition logger :: "level \<Rightarrow> string \<Rightarrow> world \<Rightarrow> world" where
  "logger l msg s = s\<lparr>logged := logged s @ [(l, msg)]\<rparr>"

section \<open>Block decision: checkReplyAndBlock\<close>

definition MIN_AGE :: real where
  "MIN_AGE = 7"

definition MIN_FOLLOWERS :: int where
  "MIN_FOLLOWERS = 15"

text \<open>Truthiness of a string field: present and not empty.\<close>

definition truthy :: "string option \<Rightarrow> bool" where
  "truthy v = (case v of None \<Rightarrow> False | Some x \<Rightarrow> x \<noteq> [])"

text \<open>
  \<open>(new Date() - Date.parse(created_at)) / 86400 / 1000\<close>. \<open>Date.parse\<close> is the
  parameter \<open>parse\<close>, giving milliseconds or \<open>None\<close> for NaN; NaN propagates.
  The quotient is a double in the source and a real here. Its comparison with 7 is the
  same in both: the difference is a whole number of milliseconds, rounded division is
  monotone, and 604800000 / 86400 / 1000 is exactly 7.
\<close>

definition ageInDays :: "(string \<Rightarrow> int option) \<Rightarrow> nat \<Rightarrow> string option \<Rightarrow> real option" where
  "ageInDays parse t c =
     (case c of None \<Rightarrow> None
      | Some x \<Rightarrow> (case parse x of None \<Rightarrow> None
                   | Some ms \<Rightarrow> Some (of_int (int t - ms) / 86400 / 1000)))"

text \<open>The comparison \<open>a < b\<close> of numbers: false when \<open>a\<close> is NaN or undefined.\<close>

definition lt :: "'a::linorder option \<Rightarrow> 'a \<Rightarrow> bool" where
  "lt a b = (case a of None \<Rightarrow> False | Some x \<Rightarrow> x < b)"

definition enqueueBlock :: "bt_user \<Rightarrow> string \<Rightarrow> cause \<Rightarrow> world \<Rightarrow> world" where
  "enqueueBlock sourceUser sinkUserId c s =
     s\<lparr>queued := queued s @
        [\<lparr>source_uid = uid sourceUser, sink_uids = [sinkUserId], qa_type = BLOCK, qa_cause = c\<rparr>]\<rparr>"

text \<open>
  \<open>checkReplyAndBlock\<close> up to the call of \<open>recipientBtUser.reload()\<close>: the reload is
  recorded as pending together with the variables its success callback closes over.
\<close>

definition checkReplyAndBlock ::
  "(string \<Rightarrow> int option) \<Rightarrow> bt_user \<Rightarrow> twitter_user option \<Rightarrow> world \<Rightarrow> world" where
  "checkReplyAndBlock parse recipientBtUser mentioningUser s0 =
     (let s = s0\<lparr>evaluated := evaluated s0 @ [(recipientBtUser, mentioningUser)]\<rparr>
      in case mentioningUser of
           None \<Rightarrow> s
         | Some m \<Rightarrow>
             if truthy (created_at m) \<and> id_str m \<noteq> uid recipientBtUser then
               let age = ageInDays parse (now s) (created_at m);
                   s1 = logger Info ''got at reply'' s
               in if lt age MIN_AGE \<or> lt (followers_count m) MIN_FOLLOWERS
                  then s1\<lparr>reloads := reloads s1 @ [(recipientBtUser, m, age)]\<rparr>
                  else s1
             else s)"

text \<open>
  The success callback of the reload. Sequelize refreshes the instance in place, so
  \<open>recipientBtUser\<close> here carries the reloaded flags.
\<close>

definition reloadSuccess :: "bt_user \<Rightarrow> twitter_user \<Rightarrow> real option \<Rightarrow> world \<Rightarrow> world" where
  "reloadSuccess recipientBtUser m age s =
     (if lt age MIN_AGE \<and> block_new_accounts recipientBtUser then
        enqueueBlock recipientBtUser (id_str m) NEW_ACCOUNT (logger Info ''Queuing block'' s)
      else if lt (followers_count m) MIN_FOLLOWERS \<and> block_low_followers recipientBtUser then
        enqueueBlock recipientBtUser (id_str m) LOW_FOLLOWERS (logger Info ''Queuing block'' s)
      else s)"

definition remove_nth :: "nat \<Rightarrow> 'a list \<Rightarrow> 'a list" where
  "remove_nth i xs = take i xs @ drop (Suc i) xs"

text \<open>
  Completion of the pending reload number \<open>i\<close>. \<open>None\<close> is a failed reload: no
  error handler is attached, and the success callback does not run. \<open>Some (a, b)\<close>
  are the stored values of the two flags.
\<close>

definition reloadDone :: "nat \<Rightarrow> (bool \<times> bool) option \<Rightarrow> world \<Rightarrow> world option" where
  "reloadDone i r s =
     (if i < length (reloads s) then
        (case reloads s ! i of (recipientBtUser, m, age) \<Rightarrow>
           let s1 = s\<lparr>reloads := remove_nth i (reloads s)\<rparr>
           in (case r of
                 None \<Rightarrow> Some s1
               | Some (a, b) \<Rightarrow>
                   Some (reloadSuccess
                     (recipientBtUser\<lparr>block_new_accounts := a, block_low_followers := b\<rparr>)
                     m age s1)))
      else None)"

section \<open>Timers\<close>

definition setTimeout :: "callback \<Rightarrow> nat \<Rightarrow> world \<Rightarrow> nat \<times> world" where
  "setTimeout cb delay s =
     (next_handle s,
      s\<lparr>timers := timers s @
           [\<lparr>tid = next_handle s, due = now s + delay, period = None, closure = cb\<rparr>],
        next_handle := Suc (next_handle s)\<rparr>)"

definition setInterval :: "callback \<Rightarrow> nat \<Rightarrow> world \<Rightarrow> nat \<times> world" where
  "setInterval cb delay s =
     (next_handle s,
      s\<lparr>timers := timers s @
           [\<lparr>tid = next_handle s, due = now s + delay, period = Some delay, closure = cb\<rparr>],
        next_handle := Suc (next_handle s)\<rparr>)"

definition clearTimeout :: "nat \<Rightarrow> world \<Rightarrow> world" where
  "clearTimeout h s = s\<lparr>timers := filter (\<lambda>t. tid t \<noteq> h) (timers s)\<rparr>"

section \<open>Catch-up: checkPastMentions\<close>

text \<open>
  A plain object with string keys is an association list with distinct keys, in the
  order the keys were first assigned; assigning an existing key replaces its value in
  place. \<open>Object.keys\<close> lists the keys that are array indices first, in ascending
  numeric order, then the others in insertion order.
\<close>

definition is_digit :: "char \<Rightarrow> bool" where
  "is_digit c = (48 \<le> (of_char c :: nat) \<and> (of_char c :: nat) \<le> 57)"

definition decimal :: "string \<Rightarrow> nat" where
  "decimal k = foldl (\<lambda>n c. 10 * n + ((of_char c :: nat) - 48)) 0 k"

definition is_index :: "string \<Rightarrow> bool" where
  "is_index k =
     (k \<noteq> [] \<and> list_all is_digit k \<and> (k = ''0'' \<or> hd k \<noteq> CHR ''0'') \<and> decimal k < 2 ^ 32 - 1)"

definition Object_keys :: "(string \<times> 'a) list \<Rightarrow> string list" where
  "Object_keys obj =
     (let ks = map fst obj
      in sort_key decimal (filter is_index ks) @ filter (\<lambda>k. \<not> is_index k) ks)"

text \<open>
  lodash's \<open>_.indexBy(collection, 'id_str')\<close>: each element in turn is assigned to
  the property named by its key, \<open>result[key] = value\<close>.
\<close>

definition indexBy :: "('a \<Rightarrow> string) \<Rightarrow> 'a list \<Rightarrow> (string \<times> 'a) list" where
  "indexBy f xs = foldl (\<lambda>result v. AList.update (f v) v result) [] xs"

text \<open>\<open>checkPastMentions\<close> issues the timeline request; its callback runs later.\<close>

definition checkPastMentions :: "bt_user \<Rightarrow> world \<Rightarrow> world" where
  "checkPastMentions user s = s\<lparr>timelines := timelines s @ [user]\<rparr>"

text \<open>The \<open>else\<close> branch of the callback of \<open>getTimeline\<close>.\<close>

definition replayMentions ::
  "(string \<Rightarrow> int option) \<Rightarrow> bt_user \<Rightarrow> status list \<Rightarrow> world \<Rightarrow> world" where
  "replayMentions parse user mentions s =
     (let s1 = logger Debug ''Replaying past mentions'' s;
          mentioningUsers = indexBy id_str (map status_user mentions)
      in fold (\<lambda>k. checkReplyAndBlock parse user (map_of mentioningUsers k))
              (Object_keys mentioningUsers) s1)"

definition timelineDone ::
  "(string \<Rightarrow> int option) \<Rightarrow> nat \<Rightarrow> string + status list \<Rightarrow> world \<Rightarrow> world option" where
  "timelineDone parse i r s =
     (if i < length (timelines s) then
        let user = timelines s ! i;
            s1 = s\<lparr>timelines := remove_nth i (timelines s)\<rparr>
        in (case r of
              Inl err \<Rightarrow> Some (logger Error ''Error /statuses/mentions'' s1)
            | Inr mentions \<Rightarrow> Some (replayMentions parse user mentions s1))
      else None)"

section \<open>Sampling and opening streams: startStreams, startStream\<close>

text \<open>
  \<open>startStream\<close>: \<open>twitter.getStream\<close> returns a new request, which is stored under
  the uid whatever was stored there before. The socket error handler only logs, and
  the 70 second idle timeout aborts the request, which ends it.
\<close>

definition startStream :: "bt_user \<Rightarrow> world \<Rightarrow> world" where
  "startStream user s =
     (let s1 = logger Info ''Starting stream for user'' s;
          req = next_handle s1;
          s2 = s1\<lparr>next_handle := Suc req, requests := requests s1 @ [(req, user)]\<rparr>;
          s3 = s2\<lparr>streams := (streams s2)(uid user \<mapsto> Request req)\<rparr>
      in checkPastMentions user s3)"

text \<open>
  The query of \<open>startStreams\<close> over the rows of the table in the order \<open>RAND()\<close>
  gave them. \<open>eligible\<close> is its \<open>where\<close>: uid not among the streaming ids, not
  deactivated, one of the two options set. The limit is 10 rows.
\<close>

definition eligible :: "string set \<Rightarrow> bt_user \<Rightarrow> bool" where
  "eligible streamingIds u =
     (uid u \<notin> streamingIds \<and> deactivatedAt u = None \<and>
      (block_new_accounts u \<or> block_low_followers u))"

definition findAll :: "string set \<Rightarrow> bt_user list \<Rightarrow> bt_user list" where
  "findAll streamingIds rows = take 10 (filter (eligible streamingIds) rows)"

text \<open>\<open>startStreams\<close> logs and issues the query with \<open>Object.keys(streams)\<close>.\<close>

definition startStreams :: "world \<Rightarrow> world" where
  "startStreams s =
     (let streamingIds = dom (streams s);
          s1 = logger Info ''Active streams / open sockets'' s
      in s1\<lparr>queries := queries s1 @ [streamingIds]\<rparr>)"

definition queryDone :: "nat \<Rightarrow> string + bt_user list \<Rightarrow> world \<Rightarrow> world option" where
  "queryDone i r s =
     (if i < length (queries s) then
        let streamingIds = queries s ! i;
            s1 = s\<lparr>queries := remove_nth i (queries s)\<rparr>
        in (case r of
              Inl err \<Rightarrow> Some (logger Error err s1)
            | Inr rows \<Rightarrow> Some (fold startStream (findAll streamingIds rows) s1))
      else None)"

section \<open>Termination: endCallback\<close>

definition verifyCredentials :: "bt_user \<Rightarrow> world \<Rightarrow> world" where
  "verifyCredentials user s = s\<lparr>verified := verified s @ [uid user]\<rparr>"

definition endCallback :: "bt_user \<Rightarrow> int \<Rightarrow> world \<Rightarrow> world" where
  "endCallback user statusCode s =
     (let s1 = logger Warn ''Ending stream'' s;
          s2 = (if statusCode = 401 \<or> statusCode = 403
                then verifyCredentials user s1 else s1)
      in if statusCode = 420 then
           snd (setTimeout (DeleteStream user (streams s2 (uid user))) (15 * 60 * 1000) s2)
         else s2\<lparr>streams := (streams s2)(uid user := None)\<rparr>)"

section \<open>Block and unblock events: handleBlockEvent\<close>

text \<open>A timer object is truthy, so the stored timer is cleared whenever there is one.\<close>

definition handleBlockEvent :: "bt_user \<Rightarrow> world \<Rightarrow> world" where
  "handleBlockEvent recipientBtUser s =
     (let s0 = s\<lparr>notified := notified s @ [(now s, uid recipientBtUser)]\<rparr>;
          s1 = (case updateBlocksTimers s0 (uid recipientBtUser) of
                  Some timerId \<Rightarrow> clearTimeout timerId s0
                | None \<Rightarrow> s0);
          (h, s2) = setTimeout (UpdateBlocks recipientBtUser) 2000 s1
      in s2\<lparr>updateBlocksTimers := (updateBlocksTimers s2)(uid recipientBtUser \<mapsto> h)\<rparr>)"

section \<open>Classification: dataCallback\<close>

definition storeUser :: "twitter_user \<Rightarrow> world \<Rightarrow> world" where
  "storeUser u s = s\<lparr>stored := stored s @ [u]\<rparr>"

definition dataCallback ::
  "(string \<Rightarrow> int option) \<Rightarrow> bt_user \<Rightarrow> payload option \<Rightarrow> world \<Rightarrow> world" where
  "dataCallback parse recipientBtUser data s =
     (case data of
        None \<Rightarrow> s
      | Some d \<Rightarrow>
         (case data_disconnect d of
            Some dc \<Rightarrow>
              let s1 = logger Warn ''disconnect message'' s
              in if disconnect_code dc = 6 \<or> disconnect_code dc = 13 \<or> disconnect_code dc = 14
                 then verifyCredentials recipientBtUser s1 else s1
          | None \<Rightarrow>
             (case data_warning d of
                Some w \<Rightarrow>
                  if warning_code w = ''FOLLOWS_OVER_LIMIT'' then s
                  else logger Warn ''Stream warning'' s
              | None \<Rightarrow>
                  if truthy (data_event d) then
                    let s1 = logger Debug ''event'' s;
                        s2 = (case data_target d of Some t \<Rightarrow> storeUser t s1 | None \<Rightarrow> s1)
                    in if data_event d = Some ''unblock'' \<or> data_event d = Some ''block''
                       then handleBlockEvent recipientBtUser s2 else s2
                  else if truthy (data_text d) \<and> data_retweeted_status d = None \<and>
                          data_user d \<noteq> None
                    then checkReplyAndBlock parse recipientBtUser (data_user d) s
                  else s)))"

section \<open>The event loop\<close>

text \<open>What a timer's closure does when it runs.\<close>

definition run_callback :: "callback \<Rightarrow> world \<Rightarrow> world" where
  "run_callback cb s =
     (case cb of
        DeleteStream user stream \<Rightarrow>
          if stream = streams s (uid user)
          then s\<lparr>streams := (streams s)(uid user := None)\<rparr>
          else logger Error ''Tried to delete stream but it had already been replaced'' s
      | UpdateBlocks user \<Rightarrow> s\<lparr>updated := updated s @ [(now s, user)]\<rparr>
      | StartStreams \<Rightarrow> startStreams s)"

text \<open>
  A pending timer fires no earlier than its due time. A timeout is then gone; an
  interval is armed again.
\<close>

definition fire :: "nat \<Rightarrow> world \<Rightarrow> world option" where
  "fire h s =
     (case find (\<lambda>t. tid t = h) (timers s) of
        None \<Rightarrow> None
      | Some t \<Rightarrow>
          if due t \<le> now s then
            let others = filter (\<lambda>t. tid t \<noteq> h) (timers s);
                again = (case period t of
                           None \<Rightarrow> []
                         | Some p \<Rightarrow> [t\<lparr>due := now s + p\<rparr>])
            in Some (run_callback (closure t) (s\<lparr>timers := others @ again\<rparr>))
          else None)"

text \<open>
  What can happen next: time passes, a due timer fires, one of the pending
  asynchronous calls completes, or an open request delivers an item or ends.
\<close>

datatype event =
    Advance nat
  | Fire nat
  | QueryDone nat "string + bt_user list"
  | TimelineDone nat "string + status list"
  | ReloadDone nat "(bool \<times> bool) option"
  | Data nat "payload option"
  | End nat int

definition exec :: "(string \<Rightarrow> int option) \<Rightarrow> event \<Rightarrow> world \<Rightarrow> world option" where
  "exec parse e s =
     (case e of
        Advance d \<Rightarrow> Some (s\<lparr>now := now s + d\<rparr>)
      | Fire h \<Rightarrow> fire h s
      | QueryDone i r \<Rightarrow> queryDone i r s
      | TimelineDone i r \<Rightarrow> timelineDone parse i r s
      | ReloadDone i r \<Rightarrow> reloadDone i r s
      | Data req d \<Rightarrow>
          (case map_of (requests s) req of
             None \<Rightarrow> None
           | Some user \<Rightarrow> Some (dataCallback parse user d s))
      | End req statusCode \<Rightarrow>
          (case map_of (requests s) req of
             None \<Rightarrow> None
           | Some user \<Rightarrow>
               Some (endCallback user statusCode
                       (s\<lparr>requests := filter (\<lambda>p. fst p \<noteq> req) (requests s)\<rparr>))))"

fun run :: "(string \<Rightarrow> int option) \<Rightarrow> event list \<Rightarrow> world \<Rightarrow> world option" where
  "run parse [] s = Some s"
| "run parse (e # es) s = (case exec parse e s of None \<Rightarrow> None | Some s' \<Rightarrow> run parse es s')"

text \<open>
  The module when loaded at time \<open>t0\<close>: \<open>streams\<close> holds the dummy entry, then
  \<open>startStreams()\<close> and \<open>setInterval(startStreams, 1000)\<close>.
\<close>

definition loaded :: "nat \<Rightarrow> world" where
  "loaded t0 =
     \<lparr>now = t0, streams = [''dummy'' \<mapsto> Num 1], updateBlocksTimers = Map.empty, timers = [],
      next_handle = 0, requests = [], queries = [], timelines = [], reloads = [],
      queued = [], stored = [], verified = [], updated = [], notified = [], evaluated = [],
      logged = []\<rparr>"

definition main :: "nat \<Rightarrow> world" where
  "main t0 = snd (setInterval StartStreams 1000 (startStreams (loaded t0)))"

section \<open>Example data\<close>

text \<open>A \<open>Date.parse\<close> that knows one date, the epoch.\<close>

definition epoch_parse :: "string \<Rightarrow> int option" where
  "epoch_parse c = (if c = ''Thu Jan 01 00:00:00 +0000 1970'' then Some 0 else None)"

definition three_days :: nat where
  "three_days = 259200000"

definition alice :: bt_user where
  "alice = \<lparr>uid = ''7'', access_token = ''t'', access_token_secret = ''s'',
     block_new_accounts = True, block_low_followers = True, deactivatedAt = None\<rparr>"

definition newcomer :: twitter_user where
  "newcomer = \<lparr>id_str = ''9'', screen_name = ''newcomer'',
     created_at = Some ''Thu Jan 01 00:00:00 +0000 1970'', followers_count = Some 5\<rparr>"

definition alice_herself :: twitter_user where
  "alice_herself = \<lparr>id_str = ''7'', screen_name = ''alice'',
     created_at = Some ''Thu Jan 01 00:00:00 +0000 1970'', followers_count = Some 5\<rparr>"

definition nameless :: twitter_user where
  "nameless = \<lparr>id_str = ''9'', screen_name = ''nameless'', created_at = None,
     followers_count = Some 5\<rparr>"

definition follow_event :: payload where
  "follow_event = \<lparr>data_disconnect = None, data_warning = None, data_event = Some ''follow'',
     data_target = Some newcomer, data_text = None, data_retweeted_status = None,
     data_user = None\<rparr>"

definition disconnect_with_event :: payload where
  "disconnect_with_event =
     follow_event\<lparr>data_disconnect := Some \<lparr>disconnect_code = 12, disconnect_reason = ''load''\<rparr>\<rparr>"

definition warning_with_event :: payload where
  "warning_with_event =
     follow_event\<lparr>data_warning :=
       Some \<lparr>warning_code = ''FALLING_BEHIND'', warning_message = ''queue 60% full''\<rparr>\<rparr>"

definition retweet :: payload where
  "retweet = \<lparr>data_disconnect = None, data_warning = None, data_event = None,
     data_target = None, data_text = Some ''@alice hi'',
     data_retweeted_status = Some \<lparr>status_user = nameless\<rparr>, data_user = Some newcomer\<rparr>"

definition thirty_days :: nat where
  "thirty_days = 2592000000"

text \<open>Two more rows of the table: one with no option set, one deactivated.\<close>

definition bob :: bt_user where
  "bob = \<lparr>uid = ''8'', access_token = ''t'', access_token_secret = ''s'',
     block_new_accounts = False, block_low_followers = True, deactivatedAt = None\<rparr>"

definition carol :: bt_user where
  "carol = \<lparr>uid = ''10'', access_token = ''t'', access_token_secret = ''s'',
     block_new_accounts = False, block_low_followers = False, deactivatedAt = None\<rparr>"

definition dave :: bt_user where
  "dave = \<lparr>uid = ''11'', access_token = ''t'', access_token_secret = ''s'',
     block_new_accounts = True, block_low_followers = False, deactivatedAt = Some 5\<rparr>"

text \<open>
  A sender who is neither new nor unpopular now, and two mentions by that sender: the
  older one carries the sender as it is, the recent one a copy with 5 followers.
\<close>

definition regular :: twitter_user where
  "regular = \<lparr>id_str = ''12'', screen_name = ''regular'',
     created_at = Some ''Thu Jan 01 00:00:00 +0000 1970'', followers_count = Some 500\<rparr>"

definition recent_mention :: status where
  "recent_mention = \<lparr>status_user = regular\<lparr>followers_count := Some 5\<rparr>\<rparr>"

definition older_mention :: status where
  "older_mention = \<lparr>status_user = regular\<rparr>"

text \<open>
  Two runs from the module loaded at time 0. In \<open>burst\<close> the query returns alice,
  whose stream (request 1) delivers a block and, 1.5 seconds later, an unblock event;
  3.5 seconds after the first event the timer set last (timer 3) fires. In
  \<open>rate_limited\<close> alice's stream ends with status 420.
\<close>

definition block_event :: payload where
  "block_event = follow_event\<lparr>data_event := Some ''block''\<rparr>"

definition unblock_event :: payload where
  "unblock_event = follow_event\<lparr>data_event := Some ''unblock''\<rparr>"

definition burst :: "event list" where
  "burst = [QueryDone 0 (Inr [alice]), Data 1 (Some block_event), Advance 1500,
            Data 1 (Some unblock_event), Advance 2000, Fire 3]"

definition rate_limited :: "event list" where
  "rate_limited = [QueryDone 0 (Inr [alice]), End 1 420]"

text \<open>
  In \<open>stacked\<close> the interval fires, a second after loading, before the first query
  has completed, and both queries return alice.
\<close>

definition stacked :: "event list" where
  "stacked = [Advance 1000, Fire 0, QueryDone 0 (Inr [alice]), QueryDone 0 (Inr [alice])]"

section \<open>Invariants of the event loop\<close>

text \<open>
  Handles are fresh and distinct, a pending \<open>UpdateBlocks\<close> timer is the one stored in
  \<open>updateBlocksTimers\<close> under its user's uid, and a stored handle, if a timer with it
  is pending, is a timer of that uid.
\<close>

definition consistent :: "world \<Rightarrow> bool" where
  "consistent s =
     ((\<forall>t \<in> set (timers s). tid t < next_handle s) \<and>
      (\<forall>p \<in> set (requests s). fst p < next_handle s) \<and>
      distinct (map tid (timers s)) \<and>
      distinct (map fst (requests s)) \<and>
      (\<forall>t \<in> set (timers s). \<forall>u. closure t = UpdateBlocks u \<longrightarrow>
          updateBlocksTimers s (uid u) = Some (tid t)) \<and>
      (\<forall>x h. updateBlocksTimers s x = Some h \<longrightarrow>
          h < next_handle s \<and>
          (\<forall>t \<in> set (timers s). tid t = h \<longrightarrow> (\<exists>u. closure t = UpdateBlocks u \<and> uid u = x))))"

text \<open>The part of the state the invariants read.\<close>

definition core ::
  "world \<Rightarrow> nat \<times> timer list \<times> nat \<times> (nat \<times> bt_user) list \<times> (string \<rightharpoonup> nat) \<times>
     (nat \<times> string) list \<times> (nat \<times> bt_user) list" where
  "core s =
     (now s, timers s, next_handle s, requests s, updateBlocksTimers s, notified s, updated s)"

text \<open>
  For an account: all the open requests whose callbacks are bound to a user of that uid,
  its pending \<open>UpdateBlocks\<close> timers, the times at which \<open>handleBlockEvent\<close> was
  called for it, and the times at which \<open>remoteUpdateBlocks\<close> was called for it.
\<close>

definition open_sessions :: "string \<Rightarrow> world \<Rightarrow> (nat \<times> bt_user) list" where
  "open_sessions a s = filter (\<lambda>p. uid (snd p) = a) (requests s)"

fun debounce_of :: "callback \<Rightarrow> string option" where
  "debounce_of (UpdateBlocks u) = Some (uid u)"
| "debounce_of (DeleteStream u st) = None"
| "debounce_of StartStreams = None"

definition pending_updates :: "string \<Rightarrow> world \<Rightarrow> timer list" where
  "pending_updates a s = filter (\<lambda>t. debounce_of (closure t) = Some a) (timers s)"

definition notifications :: "string \<Rightarrow> world \<Rightarrow> nat list" where
  "notifications a s = map fst (filter (\<lambda>p. snd p = a) (notified s))"

definition reconciliations :: "string \<Rightarrow> world \<Rightarrow> nat list" where
  "reconciliations a s = map fst (filter (\<lambda>p. uid (snd p) = a) (updated s))"

text \<open>Consecutive times are less than 2000 ms apart.\<close>

fun quiet :: "nat list \<Rightarrow> bool" where
  "quiet (t # t' # ts) = (t' < t + 2000 \<and> quiet (t' # ts))"
| "quiet [t] = True"
| "quiet [] = True"

text \<open>
  After the last notification either the one timer is pending, due 2000 ms after it, and
  no call has been made (\<open>waiting\<close>), or no timer is pending and one call has been
  made, no earlier than that (\<open>settled\<close>).
\<close>

definition waiting :: "string \<Rightarrow> world \<Rightarrow> bool" where
  "waiting a s =
     (\<exists>h u. pending_updates a s =
              [\<lparr>tid = h, due = last (notifications a s) + 2000, period = None,
                closure = UpdateBlocks u\<rparr>] \<and>
            uid u = a \<and> reconciliations a s = [])"

definition settled :: "string \<Rightarrow> world \<Rightarrow> bool" where
  "settled a s =
     (pending_updates a s = [] \<and>
      (\<exists>c. reconciliations a s = [c] \<and> last (notifications a s) + 2000 \<le> c))"

definition debounced :: "string \<Rightarrow> world \<Rightarrow> bool" where
  "debounced a s =
     ((\<forall>t \<in> set (notifications a s). t \<le> now s) \<and>
      (\<forall>c \<in> set (reconciliations a s). c \<le> now s) \<and>
      (quiet (notifications a s) \<longrightarrow>
         (if notifications a s = []
          then pending_updates a s = [] \<and> reconciliations a s = []
          else waiting a s \<or> settled a s)))"

section \<open>Concrete runs\<close>

text \<open>The definitions a concrete run unfolds to.\<close>

lemmas eval_defs = burst_def main_def loaded_def setInterval_def setTimeout_def clearTimeout_def
  startStreams_def logger_def Let_def exec_def queryDone_def findAll_def eligible_def
  alice_def startStream_def checkPastMentions_def remove_nth_def dataCallback_def
  block_event_def unblock_event_def follow_event_def truthy_def storeUser_def
  handleBlockEvent_def fire_def run_callback_def

section \<open>The block decision\<close>

lemma remove_nth_last: "remove_nth (length xs) (xs @ [p]) = xs"
  by (simp add: remove_nth_def)

lemma checkReplyAndBlock_queued: "queued (checkReplyAndBlock parse r mu s) = queued s"
  by (simp add: checkReplyAndBlock_def Let_def logger_def split: option.splits)

lemma checkReplyAndBlock_evaluated:
  "evaluated (checkReplyAndBlock parse r mu s) = evaluated s @ [(r, mu)]"
  by (simp add: checkReplyAndBlock_def Let_def logger_def split: option.splits)

lemma checkReplyAndBlock_reloads_le:
  "length (reloads (checkReplyAndBlock parse r mu s)) \<le> Suc (length (reloads s))"
  by (simp add: checkReplyAndBlock_def Let_def logger_def split: option.splits)

lemma checkReplyAndBlock_issue:
  assumes "truthy (created_at m)" and "id_str m \<noteq> uid r"
    and "lt (ageInDays parse (now s) (created_at m)) MIN_AGE \<or>
         lt (followers_count m) MIN_FOLLOWERS"
  shows "checkReplyAndBlock parse r (Some m) s =
     (logger Info ''got at reply'' (s\<lparr>evaluated := evaluated s @ [(r, Some m)]\<rparr>))
       \<lparr>reloads := reloads s @ [(r, m, ageInDays parse (now s) (created_at m))]\<rparr>"
  using assms by (simp add: checkReplyAndBlock_def Let_def logger_def)

lemma reloadDone_queued_le:
  "reloadDone i res t = Some t' \<Longrightarrow> length (queued t') \<le> Suc (length (queued t))"
  by (auto simp: reloadDone_def Let_def reloadSuccess_def enqueueBlock_def logger_def
      split: if_splits prod.splits option.splits)

lemma reloadDone_both_flags:
  assumes "i < length (reloads t)" and "reloads t ! i = (r, m, age)"
    and "lt age MIN_AGE"
  shows "\<exists>t'. reloadDone i (Some (True, True)) t = Some t' \<and>
     queued t' = queued t @
       [\<lparr>source_uid = uid r, sink_uids = [id_str m], qa_type = BLOCK, qa_cause = NEW_ACCOUNT\<rparr>]"
  using assms by (simp add: reloadDone_def Let_def reloadSuccess_def enqueueBlock_def logger_def)

text \<open>
  C1 (as amended). A mention whose sender has a creation timestamp and is not the
  recipient, with age below 7 days and fewer than 15 followers: the engine enqueues
  nothing itself and issues one reload; when that reload completes with both flags
  enabled, in whatever state, exactly one action is enqueued, a block of the sender with
  cause NEW_ACCOUNT. For every mention the engine enqueues nothing before the reload and
  issues at most one reload, and the completion of a reload enqueues at most one action.
\<close>

theorem age_takes_priority:
  assumes "truthy (created_at m)" and "id_str m \<noteq> uid r"
    and "lt (ageInDays parse (now s) (created_at m)) MIN_AGE"
    and "lt (followers_count m) MIN_FOLLOWERS"
  shows "reloads (checkReplyAndBlock parse r (Some m) s) =
           reloads s @ [(r, m, ageInDays parse (now s) (created_at m))] \<and>
         queued (checkReplyAndBlock parse r (Some m) s) = queued s \<and>
         (\<forall>t i. i < length (reloads t) \<and>
                reloads t ! i = (r, m, ageInDays parse (now s) (created_at m)) \<longrightarrow>
            (\<exists>t'. reloadDone i (Some (True, True)) t = Some t' \<and>
               queued t' = queued t @
                 [\<lparr>source_uid = uid r, sink_uids = [id_str m], qa_type = BLOCK,
                   qa_cause = NEW_ACCOUNT\<rparr>])) \<and>
         (\<forall>mu s0. queued (checkReplyAndBlock parse r mu s0) = queued s0 \<and>
            length (reloads (checkReplyAndBlock parse r mu s0)) \<le> Suc (length (reloads s0))) \<and>
         (\<forall>i res t t'. reloadDone i res t = Some t' \<longrightarrow>
            length (queued t') \<le> Suc (length (queued t)))"
proof -
  have "reloads (checkReplyAndBlock parse r (Some m) s) =
          reloads s @ [(r, m, ageInDays parse (now s) (created_at m))]"
    using assms by (simp add: checkReplyAndBlock_issue logger_def)
  moreover have "\<forall>t i. i < length (reloads t) \<and>
                reloads t ! i = (r, m, ageInDays parse (now s) (created_at m)) \<longrightarrow>
            (\<exists>t'. reloadDone i (Some (True, True)) t = Some t' \<and>
               queued t' = queued t @
                 [\<lparr>source_uid = uid r, sink_uids = [id_str m], qa_type = BLOCK,
                   qa_cause = NEW_ACCOUNT\<rparr>])"
    using assms(3) reloadDone_both_flags by blast
  ultimately show ?thesis
    using checkReplyAndBlock_queued checkReplyAndBlock_reloads_le reloadDone_queued_le
    by blast
qed

theorem age_takes_priority_witness:
  "reloads (checkReplyAndBlock epoch_parse alice (Some newcomer) (loaded three_days)) =
     [(alice, newcomer, Some 3)] \<and>
   (\<exists>t'. reloadDone 0 (Some (True, True))
            (checkReplyAndBlock epoch_parse alice (Some newcomer) (loaded three_days)) = Some t' \<and>
     queued t' = [\<lparr>source_uid = ''7'', sink_uids = [''9''], qa_type = BLOCK,
                   qa_cause = NEW_ACCOUNT\<rparr>])"
proof -
  have n: "now (loaded three_days) = three_days"
    by (simp add: loaded_def)
  have a: "ageInDays epoch_parse three_days (created_at newcomer) = Some 3"
    by (simp add: ageInDays_def epoch_parse_def newcomer_def three_days_def)
  have h: "truthy (created_at newcomer)" "id_str newcomer \<noteq> uid alice"
    "lt (ageInDays epoch_parse (now (loaded three_days)) (created_at newcomer)) MIN_AGE"
    "lt (followers_count newcomer) MIN_FOLLOWERS"
    by (simp_all add: n a, simp_all add: truthy_def newcomer_def alice_def lt_def MIN_AGE_def
        MIN_FOLLOWERS_def)
  let ?s1 = "checkReplyAndBlock epoch_parse alice (Some newcomer) (loaded three_days)"
  note th = age_takes_priority [OF h, unfolded n a]
  have r: "reloads ?s1 = [(alice, newcomer, Some 3)]"
    using th by (simp add: loaded_def)
  have q: "queued ?s1 = []"
    using th by (simp add: loaded_def)
  have "0 < length (reloads ?s1) \<and> reloads ?s1 ! 0 = (alice, newcomer, Some 3) \<longrightarrow>
     (\<exists>t'. reloadDone 0 (Some (True, True)) ?s1 = Some t' \<and>
     queued t' = queued ?s1 @ [\<lparr>source_uid = uid alice, sink_uids = [id_str newcomer],
        qa_type = BLOCK, qa_cause = NEW_ACCOUNT\<rparr>])"
    using th by blast
  then have "\<exists>t'. reloadDone 0 (Some (True, True)) ?s1 = Some t' \<and>
     queued t' = queued ?s1 @ [\<lparr>source_uid = uid alice, sink_uids = [id_str newcomer],
        qa_type = BLOCK, qa_cause = NEW_ACCOUNT\<rparr>]"
    by (simp add: r)
  then show ?thesis
    using r q by (simp add: alice_def newcomer_def)
qed

text \<open>
  C1 as stated fails when the sender is the recipient herself: her account is three days
  old with 5 followers and both flags are enabled, yet the engine issues no reload and
  enqueues nothing.
\<close>

theorem own_mention_counterexample:
  "lt (ageInDays epoch_parse (now (loaded three_days)) (created_at alice_herself)) MIN_AGE \<and>
   lt (followers_count alice_herself) MIN_FOLLOWERS \<and>
   block_new_accounts alice \<and> block_low_followers alice \<and>
   reloads (checkReplyAndBlock epoch_parse alice (Some alice_herself) (loaded three_days)) = [] \<and>
   queued (checkReplyAndBlock epoch_parse alice (Some alice_herself) (loaded three_days)) = []"
  by (simp add: truthy_def alice_herself_def alice_def epoch_parse_def loaded_def three_days_def
      lt_def ageInDays_def MIN_AGE_def MIN_FOLLOWERS_def checkReplyAndBlock_def)

lemma checkReplyAndBlock_frame:
  "checkReplyAndBlock parse r mu s =
     s\<lparr>evaluated := evaluated (checkReplyAndBlock parse r mu s),
       logged := logged (checkReplyAndBlock parse r mu s),
       reloads := reloads (checkReplyAndBlock parse r mu s)\<rparr>"
  by (simp add: checkReplyAndBlock_def Let_def logger_def split: option.splits)

text \<open>
  C7. For every mention the engine changes nothing but its record of the call, the log
  and the pending reloads. A mention that passes the guard and meets a threshold adds its
  log line and issues the reload; if that reload fails, the state is the one before the
  mention but for the record of the call and that log line. A reload that fails, in
  whatever state, only ceases to be pending. So nothing is enqueued, and the flags the
  recipient had before the reload are not consulted.
\<close>

theorem reload_failure_abandons:
  assumes "truthy (created_at m)" and "id_str m \<noteq> uid r"
    and "lt (ageInDays parse (now s) (created_at m)) MIN_AGE \<or>
         lt (followers_count m) MIN_FOLLOWERS"
  shows "checkReplyAndBlock parse r (Some m) s =
           (logger Info ''got at reply'' (s\<lparr>evaluated := evaluated s @ [(r, Some m)]\<rparr>))
             \<lparr>reloads := reloads s @ [(r, m, ageInDays parse (now s) (created_at m))]\<rparr> \<and>
         reloadDone (length (reloads s)) None (checkReplyAndBlock parse r (Some m) s) =
           Some (logger Info ''got at reply'' (s\<lparr>evaluated := evaluated s @ [(r, Some m)]\<rparr>)) \<and>
         (\<forall>t i. i < length (reloads t) \<longrightarrow>
            reloadDone i None t = Some (t\<lparr>reloads := remove_nth i (reloads t)\<rparr>)) \<and>
         (\<forall>mu s0. checkReplyAndBlock parse r mu s0 =
            s0\<lparr>evaluated := evaluated (checkReplyAndBlock parse r mu s0),
               logged := logged (checkReplyAndBlock parse r mu s0),
               reloads := reloads (checkReplyAndBlock parse r mu s0)\<rparr>)"
proof -
  have "\<forall>t i. i < length (reloads t) \<longrightarrow>
            reloadDone i None t = Some (t\<lparr>reloads := remove_nth i (reloads t)\<rparr>)"
    by (simp add: reloadDone_def Let_def split: prod.splits)
  moreover have "reloadDone (length (reloads s)) None (checkReplyAndBlock parse r (Some m) s) =
           Some (logger Info ''got at reply'' (s\<lparr>evaluated := evaluated s @ [(r, Some m)]\<rparr>))"
    using assms
    by (simp add: checkReplyAndBlock_def Let_def logger_def reloadDone_def remove_nth_last)
  moreover have "\<forall>mu s0. checkReplyAndBlock parse r mu s0 =
            s0\<lparr>evaluated := evaluated (checkReplyAndBlock parse r mu s0),
               logged := logged (checkReplyAndBlock parse r mu s0),
               reloads := reloads (checkReplyAndBlock parse r mu s0)\<rparr>"
    by (intro allI) (rule checkReplyAndBlock_frame)
  moreover note checkReplyAndBlock_issue [OF assms]
  ultimately show ?thesis by blast
qed

theorem reload_failure_abandons_witness:
  "(\<exists>t. reloadDone 0 None
          (checkReplyAndBlock epoch_parse alice (Some newcomer) (loaded three_days)) = Some t \<and>
        queued t = [] \<and> reloads t = [] \<and> streams t = streams (loaded three_days) \<and>
        timers t = [] \<and> logged t = [(Info, ''got at reply'')])"
proof -
  have h: "truthy (created_at newcomer)" "id_str newcomer \<noteq> uid alice"
    "lt (ageInDays epoch_parse (now (loaded three_days)) (created_at newcomer)) MIN_AGE \<or>
     lt (followers_count newcomer) MIN_FOLLOWERS"
    by (simp_all add: truthy_def newcomer_def alice_def lt_def MIN_FOLLOWERS_def)
  show ?thesis
    using reload_failure_abandons [OF h] by (simp add: loaded_def logger_def remove_nth_def)
qed

text \<open>
  C9. When the actor is absent, or has no creation timestamp (none, or an empty one), or
  has the recipient's id, the engine only records the call: no reload is issued and
  nothing is enqueued.
\<close>

theorem skipped_mentions:
  assumes "mentioningUser = None \<or>
     (\<exists>m. mentioningUser = Some m \<and> (\<not> truthy (created_at m) \<or> id_str m = uid r))"
  shows "checkReplyAndBlock parse r mentioningUser s =
           s\<lparr>evaluated := evaluated s @ [(r, mentioningUser)]\<rparr> \<and>
         reloads (checkReplyAndBlock parse r mentioningUser s) = reloads s \<and>
         queued (checkReplyAndBlock parse r mentioningUser s) = queued s"
proof -
  have "checkReplyAndBlock parse r mentioningUser s =
           s\<lparr>evaluated := evaluated s @ [(r, mentioningUser)]\<rparr>"
    using assms by (auto simp: checkReplyAndBlock_def)
  then show ?thesis by simp
qed

theorem skipped_mentions_witness:
  "reloads (checkReplyAndBlock epoch_parse alice None (loaded three_days)) = [] \<and>
   queued (checkReplyAndBlock epoch_parse alice None (loaded three_days)) = [] \<and>
   reloads (checkReplyAndBlock epoch_parse alice (Some nameless) (loaded three_days)) = [] \<and>
   queued (checkReplyAndBlock epoch_parse alice (Some nameless) (loaded three_days)) = [] \<and>
   reloads (checkReplyAndBlock epoch_parse alice (Some alice_herself) (loaded three_days)) = [] \<and>
   queued (checkReplyAndBlock epoch_parse alice (Some alice_herself) (loaded three_days)) = []"
  using skipped_mentions [of None alice epoch_parse "loaded three_days"]
    skipped_mentions [of "Some nameless" alice epoch_parse "loaded three_days"]
    skipped_mentions [of "Some alice_herself" alice epoch_parse "loaded three_days"]
  by (simp add: nameless_def alice_herself_def alice_def loaded_def truthy_def)

section \<open>The classifier\<close>

lemma handleBlockEvent_traces:
  "evaluated (handleBlockEvent r s) = evaluated s"
  "reloads (handleBlockEvent r s) = reloads s"
  "queued (handleBlockEvent r s) = queued s"
  "stored (handleBlockEvent r s) = stored s"
  "notified (handleBlockEvent r s) = notified s @ [(now s, uid r)]"
  by (simp_all add: handleBlockEvent_def Let_def setTimeout_def clearTimeout_def
      split: option.splits)

text \<open>
  C6. An item that carries \<open>retweeted_status\<close>, whatever else it carries (so also a
  text and a user), is not handed to \<open>checkReplyAndBlock\<close>: no call is recorded, no
  reload is issued, nothing is enqueued.
\<close>

theorem retweet_not_evaluated:
  assumes "data_retweeted_status d \<noteq> None"
  shows "evaluated (dataCallback parse r (Some d) s) = evaluated s \<and>
         reloads (dataCallback parse r (Some d) s) = reloads s \<and>
         queued (dataCallback parse r (Some d) s) = queued s"
  using assms
  by (auto simp: dataCallback_def Let_def logger_def verifyCredentials_def storeUser_def
      handleBlockEvent_traces split: option.splits)

theorem retweet_not_evaluated_witness:
  "truthy (data_text retweet) \<and> data_user retweet = Some newcomer \<and>
   evaluated (dataCallback epoch_parse alice (Some retweet) (loaded three_days)) = [] \<and>
   reloads (dataCallback epoch_parse alice (Some retweet) (loaded three_days)) = [] \<and>
   queued (dataCallback epoch_parse alice (Some retweet) (loaded three_days)) = []"
  using retweet_not_evaluated [of retweet epoch_parse alice "loaded three_days"]
  by (simp add: retweet_def truthy_def loaded_def)

text \<open>
  C10 (as amended). An item with neither \<open>disconnect\<close> nor \<open>warning\<close>, with a
  non-empty \<open>event\<close> and a \<open>target\<close>: the target is passed to \<open>storeUser\<close> whatever
  the event is, and \<open>handleBlockEvent\<close> is called exactly when the event is
  \<open>block\<close> or \<open>unblock\<close>.
\<close>

theorem event_target_stored:
  assumes "data_disconnect d = None" and "data_warning d = None"
    and "truthy (data_event d)" and "data_target d = Some t"
  shows "stored (dataCallback parse r (Some d) s) = stored s @ [t] \<and>
         notified (dataCallback parse r (Some d) s) =
           (if data_event d = Some ''unblock'' \<or> data_event d = Some ''block''
            then notified s @ [(now s, uid r)] else notified s)"
  using assms
  by (simp add: dataCallback_def Let_def logger_def storeUser_def handleBlockEvent_traces)

theorem event_target_stored_witness:
  "stored (dataCallback epoch_parse alice (Some follow_event) (loaded 0)) = [newcomer] \<and>
   notified (dataCallback epoch_parse alice (Some follow_event) (loaded 0)) = [] \<and>
   notified (dataCallback epoch_parse alice (Some (follow_event\<lparr>data_event := Some ''block''\<rparr>))
     (loaded 0)) = [(0, ''7'')]"
  using event_target_stored [of follow_event newcomer epoch_parse alice "loaded 0"]
    event_target_stored [of "follow_event\<lparr>data_event := Some ''block''\<rparr>" newcomer
      epoch_parse alice "loaded 0"]
  by (simp add: follow_event_def truthy_def loaded_def alice_def)

text \<open>
  C10 as stated fails for an item that also carries \<open>disconnect\<close> or \<open>warning\<close>:
  it has an event and a target, and the target is not passed to \<open>storeUser\<close>.
\<close>

theorem disconnect_first_counterexample:
  "truthy (data_event disconnect_with_event) \<and>
   data_target disconnect_with_event = Some newcomer \<and>
   stored (dataCallback epoch_parse alice (Some disconnect_with_event) (loaded 0)) = [] \<and>
   truthy (data_event warning_with_event) \<and>
   data_target warning_with_event = Some newcomer \<and>
   stored (dataCallback epoch_parse alice (Some warning_with_event) (loaded 0)) = []"
  by (simp add: disconnect_with_event_def warning_with_event_def follow_event_def truthy_def
      loaded_def dataCallback_def logger_def)

section \<open>Catch-up\<close>

lemma indexBy_snoc: "indexBy f (xs @ [x]) = AList.update (f x) x (indexBy f xs)"
  by (simp add: indexBy_def)

lemma indexBy_keys: "fst ` set (indexBy f xs) = f ` set xs"
proof (induction xs rule: rev_induct)
  case Nil
  then show ?case by (simp add: indexBy_def)
next
  case (snoc x xs)
  then show ?case by (simp add: indexBy_snoc dom_update)
qed

lemma indexBy_distinct: "distinct (map fst (indexBy f xs))"
proof (induction xs rule: rev_induct)
  case Nil
  then show ?case by (simp add: indexBy_def)
next
  case (snoc x xs)
  then show ?case by (simp add: indexBy_snoc distinct_update)
qed

lemma indexBy_lookup:
  "map_of (indexBy f xs) k =
     (if k \<in> f ` set xs then Some (last (filter (\<lambda>x. f x = k) xs)) else None)"
proof (induction xs rule: rev_induct)
  case Nil
  then show ?case by (simp add: indexBy_def)
next
  case (snoc x xs)
  then show ?case by (auto simp: indexBy_snoc update_conv')
qed

lemma Object_keys_set: "set (Object_keys obj) = fst ` set obj"
  by (auto simp: Object_keys_def Let_def)

lemma Object_keys_distinct: "distinct (map fst obj) \<Longrightarrow> distinct (Object_keys obj)"
  by (auto simp: Object_keys_def Let_def)

lemma forEach_evaluated:
  "evaluated (fold (\<lambda>k. checkReplyAndBlock parse user (g k)) ks s) =
     evaluated s @ map (\<lambda>k. (user, g k)) ks"
  by (induction ks arbitrary: s) (simp_all add: checkReplyAndBlock_evaluated)

lemma last_filter_key: "k \<in> f ` set xs \<Longrightarrow> f (last (filter (\<lambda>x. f x = k) xs)) = k"
proof -
  assume "k \<in> f ` set xs"
  then have ne: "filter (\<lambda>x. f x = k) xs \<noteq> []" by (auto simp: filter_empty_conv)
  from last_in_set[OF ne] show ?thesis by simp
qed

text \<open>
  C3 (as amended). The callback of the timeline request calls \<open>checkReplyAndBlock\<close>
  once for each distinct sender id of the result list, and the record it passes for a
  sender is the last one in the list with that id.
\<close>

theorem replay_deduplicates:
  "\<exists>handed. evaluated (replayMentions parse user mentions s) =
             evaluated s @ map (\<lambda>u. (user, Some u)) handed \<and>
     distinct (map id_str handed) \<and>
     id_str ` set handed = id_str ` status_user ` set mentions \<and>
     (\<forall>u \<in> set handed.
        u = last (filter (\<lambda>x. id_str x = id_str u) (map status_user mentions)))"
proof -
  let ?senders = "map status_user mentions"
  let ?mu = "indexBy id_str ?senders"
  let ?ks = "Object_keys ?mu"
  let ?rep = "\<lambda>k. last (filter (\<lambda>x. id_str x = k) ?senders)"
  let ?handed = "map ?rep ?ks"
  have ks: "set ?ks = id_str ` set ?senders"
    by (simp add: Object_keys_set indexBy_keys)
  have dk: "distinct ?ks"
    by (simp add: Object_keys_distinct indexBy_distinct)
  have look: "\<And>k. k \<in> set ?ks \<Longrightarrow> map_of ?mu k = Some (?rep k)"
    using ks by (simp add: indexBy_lookup)
  have key: "\<And>k. k \<in> set ?ks \<Longrightarrow> id_str (?rep k) = k"
    using ks last_filter_key [of _ id_str ?senders] by simp
  have ids: "map id_str ?handed = ?ks"
    using key by (simp add: map_idI)
  have "evaluated (replayMentions parse user mentions s) =
          evaluated s @ map (\<lambda>k. (user, map_of ?mu k)) ?ks"
    by (simp add: replayMentions_def Let_def forEach_evaluated logger_def)
  also have "map (\<lambda>k. (user, map_of ?mu k)) ?ks = map (\<lambda>u. (user, Some u)) ?handed"
    using look by simp
  finally have 1: "evaluated (replayMentions parse user mentions s) =
             evaluated s @ map (\<lambda>u. (user, Some u)) ?handed" .
  have 2: "distinct (map id_str ?handed)"
    using ids dk by simp
  have 3: "id_str ` set ?handed = id_str ` status_user ` set mentions"
    using ids ks by (metis list.set_map)
  have 4: "\<forall>u \<in> set ?handed. u = ?rep (id_str u)"
    using key by auto
  from 1 2 3 4 show ?thesis by blast
qed

theorem replay_deduplicates_witness:
  "\<exists>handed. evaluated (replayMentions epoch_parse alice [recent_mention, older_mention]
                (loaded thirty_days)) = map (\<lambda>u. (alice, Some u)) handed \<and>
     distinct (map id_str handed) \<and> id_str ` set handed = {''12''}"
proof -
  from replay_deduplicates [of epoch_parse alice "[recent_mention, older_mention]"
      "loaded thirty_days"]
  obtain handed where h:
    "evaluated (replayMentions epoch_parse alice [recent_mention, older_mention]
       (loaded thirty_days)) =
     evaluated (loaded thirty_days) @ map (\<lambda>u. (alice, Some u)) handed"
    "distinct (map id_str handed)"
    "id_str ` set handed = id_str ` status_user ` set [recent_mention, older_mention]"
    by blast
  have "evaluated (loaded thirty_days) = []"
    by (simp add: loaded_def)
  moreover have "id_str ` status_user ` set [recent_mention, older_mention] = {''12''}"
    by (simp add: recent_mention_def older_mention_def regular_def)
  ultimately show ?thesis
    using h by auto
qed

text \<open>
  C3 as stated fails: of two mentions by one sender the record passed on is the one of
  the second mention, not of the first. Here it decides the outcome: the second record
  (500 followers) meets no threshold and no reload is issued, while the first (5
  followers) would have had one issued.
\<close>

theorem first_occurrence_counterexample:
  "evaluated (replayMentions epoch_parse alice [recent_mention, older_mention]
     (loaded thirty_days)) = [(alice, Some (status_user older_mention))] \<and>
   id_str (status_user recent_mention) = id_str (status_user older_mention) \<and>
   status_user older_mention \<noteq> status_user recent_mention \<and>
   reloads (replayMentions epoch_parse alice [recent_mention, older_mention]
     (loaded thirty_days)) = [] \<and>
   length (reloads (checkReplyAndBlock epoch_parse alice (Some (status_user recent_mention))
     (loaded thirty_days))) = 1"
  by (simp add: replayMentions_def indexBy_def Object_keys_def is_index_def is_digit_def
      decimal_def recent_mention_def older_mention_def regular_def Let_def
      checkReplyAndBlock_def logger_def loaded_def thirty_days_def truthy_def alice_def
      ageInDays_def epoch_parse_def lt_def MIN_AGE_def MIN_FOLLOWERS_def)

section \<open>The sampler\<close>

lemma findAll_length: "length (findAll ids rows) \<le> 10"
  by (simp add: findAll_def)

lemma findAll_eligible: "u \<in> set (findAll ids rows) \<Longrightarrow> eligible ids u"
  by (auto simp: findAll_def dest: in_set_takeD)

lemma startStream_requests:
  "requests (startStream u t) = requests t @ [(next_handle t, u)]"
  "next_handle (startStream u t) = Suc (next_handle t)"
  "streams (startStream u t) = (streams t)(uid u \<mapsto> Request (next_handle t))"
  by (simp_all add: startStream_def Let_def logger_def checkPastMentions_def)

lemma forEach_startStream_requests:
  "map snd (requests (fold startStream us t)) = map snd (requests t) @ us"
  by (induction us arbitrary: t) (simp_all add: startStream_requests)

lemma forEach_startStream_streams:
  "u \<in> set us \<Longrightarrow> \<exists>h. streams (fold startStream us t) (uid u) = Some (Request h)"
proof (induction us arbitrary: t rule: rev_induct)
  case Nil
  then show ?case by simp
next
  case (snoc x xs)
  then show ?case by (auto simp: startStream_requests)
qed

lemma queryDone_success:
  "i < length (queries t) \<Longrightarrow>
     queryDone i (Inr rows) t =
       Some (fold startStream (findAll (queries t ! i) rows)
               (t\<lparr>queries := remove_nth i (queries t)\<rparr>))"
  by (simp add: queryDone_def Let_def)

lemma main_timers:
  "timers (main t0) =
     [\<lparr>tid = 0, due = t0 + 1000, period = Some 1000, closure = StartStreams\<rparr>]"
  "queries (main t0) = [{''dummy''}]"
  by (simp_all add: main_def setInterval_def startStreams_def loaded_def logger_def Let_def)

lemma fire_interval:
  assumes "find (\<lambda>x. tid x = h) (timers s) = Some tm" and "closure tm = StartStreams"
    and "period tm = Some p" and "due tm \<le> now s"
  shows "fire h s =
     Some (startStreams
       (s\<lparr>timers := filter (\<lambda>x. tid x \<noteq> h) (timers s) @ [tm\<lparr>due := now s + p\<rparr>]\<rparr>))"
  using assms
  by (simp add: fire_def Let_def run_callback_def)

text \<open>
  C8. The query returns at most 10 rows. Every row it returns for the streaming ids of
  the state in which \<open>startStreams\<close> ran has no entry in \<open>streams\<close> there, is not
  deactivated and has one of the two options set; \<open>startStreams\<close> issues the query
  with exactly those ids; when the query completes, \<open>startStream\<close> is called for each
  returned row, in order, and leaves a request under its uid. The module arms the
  interval at 1000 ms, and each firing arms it again 1000 ms later and runs
  \<open>startStreams\<close>.
\<close>

theorem sampler_batch:
  "length (findAll ids rows) \<le> 10 \<and>
   (\<forall>u \<in> set (findAll (dom (streams s)) rows).
      streams s (uid u) = None \<and> deactivatedAt u = None \<and>
      (block_new_accounts u \<or> block_low_followers u)) \<and>
   queries (startStreams s) = queries s @ [dom (streams s)] \<and>
   (\<forall>i t. i < length (queries t) \<longrightarrow>
      (\<exists>t'. queryDone i (Inr rows) t = Some t' \<and>
         map snd (requests t') = map snd (requests t) @ findAll (queries t ! i) rows \<and>
         (\<forall>u \<in> set (findAll (queries t ! i) rows).
            \<exists>h. streams t' (uid u) = Some (Request h)))) \<and>
   timers (main t0) =
     [\<lparr>tid = 0, due = t0 + 1000, period = Some 1000, closure = StartStreams\<rparr>] \<and>
   (\<forall>h t tm. find (\<lambda>x. tid x = h) (timers t) = Some tm \<and> closure tm = StartStreams \<and>
        period tm = Some 1000 \<and> due tm \<le> now t \<longrightarrow>
      fire h t = Some (startStreams
        (t\<lparr>timers := filter (\<lambda>x. tid x \<noteq> h) (timers t) @ [tm\<lparr>due := now t + 1000\<rparr>]\<rparr>)))"
proof -
  have 2: "\<forall>u \<in> set (findAll (dom (streams s)) rows).
      streams s (uid u) = None \<and> deactivatedAt u = None \<and>
      (block_new_accounts u \<or> block_low_followers u)"
    using findAll_eligible [of _ "dom (streams s)" rows]
    by (auto simp: eligible_def)
  have 3: "queries (startStreams s) = queries s @ [dom (streams s)]"
    by (simp add: startStreams_def Let_def logger_def)
  have 4: "\<exists>t'. queryDone i (Inr rows) t = Some t' \<and>
         map snd (requests t') = map snd (requests t) @ findAll (queries t ! i) rows \<and>
         (\<forall>u \<in> set (findAll (queries t ! i) rows).
            \<exists>h. streams t' (uid u) = Some (Request h))"
    if "i < length (queries t)" for i t
    using that forEach_startStream_streams
    by (simp add: queryDone_success forEach_startStream_requests)
  have 6: "fire h t = Some (startStreams
        (t\<lparr>timers := filter (\<lambda>x. tid x \<noteq> h) (timers t) @ [tm\<lparr>due := now t + 1000\<rparr>]\<rparr>))"
    if "find (\<lambda>x. tid x = h) (timers t) = Some tm \<and> closure tm = StartStreams \<and>
        period tm = Some 1000 \<and> due tm \<le> now t" for h t tm
    using that fire_interval by blast
  from 2 3 4 6 show ?thesis
    using findAll_length main_timers(1) by blast
qed

theorem sampler_batch_witness:
  "findAll (dom (streams (main 0))) [carol, dave, alice, bob] = [alice, bob] \<and>
   length (findAll (dom (streams (main 0))) [carol, dave, alice, bob]) \<le> 10 \<and>
   (\<exists>t'. queryDone 0 (Inr [carol, dave, alice, bob]) (main 0) = Some t' \<and>
      map snd (requests t') = [alice, bob])"
proof -
  have f: "findAll (dom (streams (main 0))) [carol, dave, alice, bob] = [alice, bob]"
    by (simp add: findAll_def eligible_def main_def setInterval_def startStreams_def
        loaded_def logger_def Let_def alice_def bob_def carol_def dave_def)
  have q: "queries (main 0) = [dom (streams (main 0))]" "requests (main 0) = []"
    by (simp_all add: main_def setInterval_def startStreams_def loaded_def logger_def Let_def)
  note th = sampler_batch [of "dom (streams (main 0))" "[carol, dave, alice, bob]" "main 0" 0]
  have "0 < length (queries (main 0)) \<longrightarrow>
      (\<exists>t'. queryDone 0 (Inr [carol, dave, alice, bob]) (main 0) = Some t' \<and>
         map snd (requests t') = map snd (requests (main 0)) @
           findAll (queries (main 0) ! 0) [carol, dave, alice, bob] \<and>
         (\<forall>u \<in> set (findAll (queries (main 0) ! 0) [carol, dave, alice, bob]).
            \<exists>h. streams t' (uid u) = Some (Request h)))"
    using th by blast
  then have "\<exists>t'. queryDone 0 (Inr [carol, dave, alice, bob]) (main 0) = Some t' \<and>
      map snd (requests t') = [alice, bob]"
    by (auto simp: q f)
  with f th show ?thesis by simp
qed

section \<open>Termination\<close>

lemma endCallback_420:
  "streams (endCallback user 420 s) = streams s"
  "timers (endCallback user 420 s) =
     timers s @ [\<lparr>tid = next_handle s, due = now s + 900000, period = None,
                  closure = DeleteStream user (streams s (uid user))\<rparr>]"
  by (simp_all add: endCallback_def Let_def logger_def setTimeout_def verifyCredentials_def)

lemma endCallback_other:
  "statusCode \<noteq> 420 \<Longrightarrow>
     streams (endCallback user statusCode s) = (streams s)(uid user := None)"
  "statusCode \<noteq> 420 \<Longrightarrow> timers (endCallback user statusCode s) = timers s"
  by (simp_all add: endCallback_def Let_def logger_def setTimeout_def verifyCredentials_def)

lemma fire_early:
  "find (\<lambda>x. tid x = h) (timers t) = Some tm \<Longrightarrow> now t < due tm \<Longrightarrow> fire h t = None"
  by (simp add: fire_def)

lemma fire_delete:
  assumes "find (\<lambda>x. tid x = h) (timers t) = Some tm"
    and "closure tm = DeleteStream user st" and "period tm = None" and "due tm \<le> now t"
  shows "\<exists>t'. fire h t = Some t' \<and>
     streams t' = (if st = streams t (uid user)
                   then (streams t)(uid user := None) else streams t) \<and>
     logged t' = (if st = streams t (uid user) then logged t
                  else logged t @
                    [(Error, ''Tried to delete stream but it had already been replaced'')]) \<and>
     timers t' = filter (\<lambda>x. tid x \<noteq> h) (timers t)"
  using assms by (simp add: fire_def Let_def run_callback_def logger_def)

text \<open>
  C4. With status 420 \<open>endCallback\<close> leaves \<open>streams\<close> as it is and sets one timer,
  due 15 minutes later, that holds the stream stored at that moment; while the entry
  stays, no row of that uid satisfies the sampler's condition. With any other status the
  entry is deleted at once, and a row of that uid that is not deactivated and has an
  option set satisfies the sampler's condition again. The timer cannot fire before
  it is due; when it fires it deletes the entry if \<open>streams\<close> still holds the stream it
  captured, and otherwise logs an error and leaves \<open>streams\<close> as it is. This is what
  one termination and its timer do; the immediate deletion is by uid, whichever request
  is stored there.
\<close>

theorem termination_cooldown:
  "(statusCode = 420 \<longrightarrow>
      streams (endCallback user statusCode s) = streams s \<and>
      timers (endCallback user statusCode s) = timers s @
        [\<lparr>tid = next_handle s, due = now s + 15 * 60 * 1000, period = None,
          closure = DeleteStream user (streams s (uid user))\<rparr>] \<and>
      (\<forall>u. uid u = uid user \<and> streams s (uid user) \<noteq> None \<longrightarrow>
         \<not> eligible (dom (streams (endCallback user statusCode s))) u)) \<and>
   (statusCode \<noteq> 420 \<longrightarrow>
      streams (endCallback user statusCode s) = (streams s)(uid user := None) \<and>
      timers (endCallback user statusCode s) = timers s \<and>
      (\<forall>u. uid u = uid user \<and> deactivatedAt u = None \<and>
           (block_new_accounts u \<or> block_low_followers u) \<longrightarrow>
         eligible (dom (streams (endCallback user statusCode s))) u)) \<and>
   (\<forall>h t tm st. find (\<lambda>x. tid x = h) (timers t) = Some tm \<and>
        closure tm = DeleteStream user st \<and> period tm = None \<longrightarrow>
      (now t < due tm \<longrightarrow> fire h t = None) \<and>
      (due tm \<le> now t \<longrightarrow>
         (\<exists>t'. fire h t = Some t' \<and>
            streams t' = (if st = streams t (uid user)
                          then (streams t)(uid user := None) else streams t) \<and>
            logged t' = (if st = streams t (uid user) then logged t
                         else logged t @
                           [(Error, ''Tried to delete stream but it had already been replaced'')]))))"
proof -
  have 1: "statusCode = 420 \<longrightarrow>
      streams (endCallback user statusCode s) = streams s \<and>
      timers (endCallback user statusCode s) = timers s @
        [\<lparr>tid = next_handle s, due = now s + 15 * 60 * 1000, period = None,
          closure = DeleteStream user (streams s (uid user))\<rparr>] \<and>
      (\<forall>u. uid u = uid user \<and> streams s (uid user) \<noteq> None \<longrightarrow>
         \<not> eligible (dom (streams (endCallback user statusCode s))) u)"
    by (auto simp: endCallback_420 eligible_def)
  have 2: "statusCode \<noteq> 420 \<longrightarrow>
      streams (endCallback user statusCode s) = (streams s)(uid user := None) \<and>
      timers (endCallback user statusCode s) = timers s \<and>
      (\<forall>u. uid u = uid user \<and> deactivatedAt u = None \<and>
           (block_new_accounts u \<or> block_low_followers u) \<longrightarrow>
         eligible (dom (streams (endCallback user statusCode s))) u)"
    by (simp add: endCallback_other eligible_def)
  have 3: "(now t < due tm \<longrightarrow> fire h t = None) \<and>
      (due tm \<le> now t \<longrightarrow>
         (\<exists>t'. fire h t = Some t' \<and>
            streams t' = (if st = streams t (uid user)
                          then (streams t)(uid user := None) else streams t) \<and>
            logged t' = (if st = streams t (uid user) then logged t
                         else logged t @
                           [(Error, ''Tried to delete stream but it had already been replaced'')])))"
    if "find (\<lambda>x. tid x = h) (timers t) = Some tm \<and>
        closure tm = DeleteStream user st \<and> period tm = None" for h t tm st
    using that fire_early [of h t tm] fire_delete [of h t tm user st] by auto
  from 1 2 3 show ?thesis by blast
qed

theorem termination_cooldown_witness:
  "\<exists>s. run epoch_parse rate_limited (main 0) = Some s \<and>
     streams s ''7'' = Some (Request 1) \<and> fire 2 s = None \<and>
     (\<exists>t'. fire 2 (s\<lparr>now := 900000\<rparr>) = Some t' \<and> streams t' ''7'' = None) \<and>
     streams (endCallback alice 200 s) ''7'' = None \<and>
     streams (endCallback alice 420 s) ''7'' = Some (Request 1)"
proof -
  have "\<exists>s. run epoch_parse rate_limited (main 0) = Some s \<and>
     streams s ''7'' = Some (Request 1) \<and> now s = 0 \<and>
     find (\<lambda>x. tid x = 2) (timers s) =
       Some \<lparr>tid = 2, due = 900000, period = None,
              closure = DeleteStream alice (Some (Request 1))\<rparr>"
    by (simp add: rate_limited_def eval_defs endCallback_def)
  then obtain s where s: "run epoch_parse rate_limited (main 0) = Some s"
     "streams s ''7'' = Some (Request 1)" "now s = 0"
     "find (\<lambda>x. tid x = 2) (timers s) =
       Some \<lparr>tid = 2, due = 900000, period = None,
              closure = DeleteStream alice (Some (Request 1))\<rparr>"
    by blast
  let ?tm = "\<lparr>tid = 2, due = 900000, period = None,
              closure = DeleteStream alice (Some (Request 1))\<rparr>"
  note th = termination_cooldown [of 200 alice s]
  note deferred = th [THEN conjunct2, THEN conjunct2, rule_format]
  have pre: "find (\<lambda>x. tid x = 2) (timers s) = Some ?tm \<and>
     closure ?tm = DeleteStream alice (Some (Request 1)) \<and> period ?tm = None"
    using s(4) by simp
  have pre': "find (\<lambda>x. tid x = 2) (timers (s\<lparr>now := 900000\<rparr>)) = Some ?tm \<and>
     closure ?tm = DeleteStream alice (Some (Request 1)) \<and> period ?tm = None"
    using s(4) by simp
  have a: "fire 2 s = None"
    using deferred [OF pre] s(3) by simp
  have "\<exists>t'. fire 2 (s\<lparr>now := 900000\<rparr>) = Some t' \<and>
     streams t' = (if Some (Request 1) = streams (s\<lparr>now := 900000\<rparr>) (uid alice)
                   then (streams (s\<lparr>now := 900000\<rparr>))(uid alice := None)
                   else streams (s\<lparr>now := 900000\<rparr>))"
    using deferred [OF pre'] by auto
  then have b: "\<exists>t'. fire 2 (s\<lparr>now := 900000\<rparr>) = Some t' \<and> streams t' ''7'' = None"
    using s(2) by (auto simp: alice_def)
  have c: "streams (endCallback alice 200 s) ''7'' = None"
    using th by (simp add: alice_def)
  have d: "streams (endCallback alice 420 s) ''7'' = Some (Request 1)"
    using termination_cooldown [of 420 alice s] s(2) by simp
  from s(1,2) a b c d show ?thesis by blast
qed

section \<open>Invariants along every run\<close>

lemma core_eqD:
  assumes "core s' = core s"
  shows "now s' = now s" "timers s' = timers s" "next_handle s' = next_handle s" "requests s' = requests s"
    "updateBlocksTimers s' = updateBlocksTimers s" "notified s' = notified s" "updated s' = updated s"
  using assms by (simp_all add: core_def)

lemma consistent_frame: "core s' = core s \<Longrightarrow> consistent s \<Longrightarrow> consistent s'"
  by (simp add: consistent_def core_def)

lemma core_logger [simp]: "core (logger l m s) = core s"
  by (simp add: core_def logger_def)

lemma core_checkReplyAndBlock [simp]: "core (checkReplyAndBlock parse r mu s) = core s"
  by (simp add: core_def checkReplyAndBlock_def Let_def logger_def split: option.splits)

lemma core_forEach [simp]: "core (fold (\<lambda>k. checkReplyAndBlock parse r (g k)) ks s) = core s"
  by (induction ks arbitrary: s) simp_all

lemma core_replayMentions [simp]: "core (replayMentions parse r ms s) = core s"
  by (simp add: replayMentions_def Let_def)

lemma core_timelineDone: "timelineDone parse i r s = Some s' \<Longrightarrow> core s' = core s"
  by (auto simp: timelineDone_def Let_def split: if_splits sum.splits) (simp add: core_def)+

lemma core_reloadDone: "reloadDone i r s = Some s' \<Longrightarrow> core s' = core s"
  by (auto simp: reloadDone_def Let_def reloadSuccess_def enqueueBlock_def logger_def core_def split: if_splits option.splits prod.splits)

lemma core_verifyCredentials [simp]: "core (verifyCredentials r s) = core s"
  by (simp add: core_def verifyCredentials_def)

lemma core_storeUser [simp]: "core (storeUser r s) = core s"
  by (simp add: core_def storeUser_def)

lemma dataCallback_cases:
  "\<exists>s1. core s1 = core s \<and>
     (dataCallback parse r d s = s1 \<or> dataCallback parse r d s = handleBlockEvent r s1)"
proof (cases "\<exists>x. d = Some x \<and> data_disconnect x = None \<and> data_warning x = None \<and>
    truthy (data_event x) \<and> (data_event x = Some ''unblock'' \<or> data_event x = Some ''block'')")
  case True
  then obtain x where x: "d = Some x" "data_disconnect x = None" "data_warning x = None"
    "truthy (data_event x)" "data_event x = Some ''unblock'' \<or> data_event x = Some ''block''"
    by blast
  let ?s1 = "case data_target x of Some t \<Rightarrow> storeUser t (logger Debug ''event'' s)
             | None \<Rightarrow> logger Debug ''event'' s"
  have "core ?s1 = core s"
    by (simp split: option.splits)
  moreover have "dataCallback parse r d s = handleBlockEvent r ?s1"
    using x by (simp add: dataCallback_def Let_def)
  ultimately show ?thesis by blast
next
  case False
  then have "core (dataCallback parse r d s) = core s"
    by (auto simp: dataCallback_def Let_def split: option.splits)
  then show ?thesis by blast
qed

lemma consistent_main: "consistent (main t0)"
  by (simp add: consistent_def main_def setInterval_def startStreams_def loaded_def logger_def Let_def)

lemma consistent_advance: "consistent s \<Longrightarrow> consistent (s\<lparr>now := n\<rparr>)"
  by (simp add: consistent_def)

lemma handleBlockEvent_core:
  "timers (handleBlockEvent r s) =
     filter (\<lambda>t. updateBlocksTimers s (uid r) \<noteq> Some (tid t)) (timers s) @
       [\<lparr>tid = next_handle s, due = now s + 2000, period = None, closure = UpdateBlocks r\<rparr>]"
  "next_handle (handleBlockEvent r s) = Suc (next_handle s)"
  "updateBlocksTimers (handleBlockEvent r s) = (updateBlocksTimers s)(uid r \<mapsto> next_handle s)"
  "requests (handleBlockEvent r s) = requests s"
  "now (handleBlockEvent r s) = now s"
  "updated (handleBlockEvent r s) = updated s"
  by (auto simp: handleBlockEvent_def Let_def setTimeout_def clearTimeout_def
      split: option.splits intro: filter_cong)

lemma consistent_handleBlockEvent:
  assumes "consistent s"
  shows "consistent (handleBlockEvent r s)"
  unfolding consistent_def handleBlockEvent_core
proof (intro conjI)
  show "\<forall>t\<in>set (filter (\<lambda>t. updateBlocksTimers s (uid r) \<noteq> Some (tid t)) (timers s) @
       [\<lparr>tid = next_handle s, due = now s + 2000, period = None, closure = UpdateBlocks r\<rparr>]). tid t < Suc (next_handle s)"
    using assms by (auto simp: consistent_def less_Suc_eq)
  show "\<forall>p\<in>set (requests s). fst p < Suc (next_handle s)"
    using assms by (auto simp: consistent_def less_Suc_eq)
  show "distinct (map tid (filter (\<lambda>t. updateBlocksTimers s (uid r) \<noteq> Some (tid t)) (timers s) @
       [\<lparr>tid = next_handle s, due = now s + 2000, period = None, closure = UpdateBlocks r\<rparr>]))"
    using assms by (auto simp: consistent_def distinct_map_filter)
  show "distinct (map fst (requests s))"
    using assms by (simp add: consistent_def)
  show "\<forall>t\<in>set (filter (\<lambda>t. updateBlocksTimers s (uid r) \<noteq> Some (tid t)) (timers s) @
       [\<lparr>tid = next_handle s, due = now s + 2000, period = None, closure = UpdateBlocks r\<rparr>]).
       \<forall>u. closure t = UpdateBlocks u \<longrightarrow>
           ((updateBlocksTimers s)(uid r \<mapsto> next_handle s)) (uid u) = Some (tid t)"
    using assms by (auto simp: consistent_def)
  show "\<forall>x h. ((updateBlocksTimers s)(uid r \<mapsto> next_handle s)) x = Some h \<longrightarrow>
          h < Suc (next_handle s) \<and>
          (\<forall>t\<in>set (filter (\<lambda>t. updateBlocksTimers s (uid r) \<noteq> Some (tid t)) (timers s) @
       [\<lparr>tid = next_handle s, due = now s + 2000, period = None, closure = UpdateBlocks r\<rparr>]).
       tid t = h \<longrightarrow> (\<exists>u. closure t = UpdateBlocks u \<and> uid u = x))"
  proof (intro allI impI)
    fix x h
    assume eq: "((updateBlocksTimers s)(uid r \<mapsto> next_handle s)) x = Some h"
    have fresh: "\<forall>t \<in> set (timers s). tid t \<noteq> next_handle s"
      using assms by (auto simp: consistent_def)
    show "h < Suc (next_handle s) \<and>
          (\<forall>t\<in>set (filter (\<lambda>t. updateBlocksTimers s (uid r) \<noteq> Some (tid t)) (timers s) @
       [\<lparr>tid = next_handle s, due = now s + 2000, period = None, closure = UpdateBlocks r\<rparr>]).
       tid t = h \<longrightarrow> (\<exists>u. closure t = UpdateBlocks u \<and> uid u = x))"
    proof (cases "x = uid r")
      case True
      with eq have "h = next_handle s" by simp
      with True fresh show ?thesis by auto
    next
      case False
      with eq have old: "updateBlocksTimers s x = Some h" by simp
      with assms have "h < next_handle s"
        and "\<forall>t \<in> set (timers s). tid t = h \<longrightarrow> (\<exists>u. closure t = UpdateBlocks u \<and> uid u = x)"
        unfolding consistent_def by blast+
      then show ?thesis by auto
    qed
  qed
qed

lemma startStream_core:
  "timers (startStream u s) = timers s"
  "next_handle (startStream u s) = Suc (next_handle s)"
  "requests (startStream u s) = requests s @ [(next_handle s, u)]"
  "updateBlocksTimers (startStream u s) = updateBlocksTimers s"
  "now (startStream u s) = now s"
  "notified (startStream u s) = notified s"
  "updated (startStream u s) = updated s"
  by (simp_all add: startStream_def Let_def logger_def checkPastMentions_def)

lemma consistent_startStream:
  assumes "consistent s"
  shows "consistent (startStream u s)"
  using assms unfolding consistent_def startStream_core
  by (auto simp: less_Suc_eq)

lemma consistent_forEach_startStream:
  "consistent s \<Longrightarrow> consistent (fold startStream us s)"
  by (induction us arbitrary: s) (simp_all add: consistent_startStream)

lemma consistent_queryDone:
  assumes "consistent s" and "queryDone i r s = Some s'"
  shows "consistent s'"
proof -
  have c: "consistent (s\<lparr>queries := remove_nth i (queries s)\<rparr>)"
    using assms(1) by (simp add: consistent_def)
  show ?thesis
  proof (cases r)
    case (Inl err)
    with assms(2) have "s' = logger Error err (s\<lparr>queries := remove_nth i (queries s)\<rparr>)"
      by (auto simp: queryDone_def Let_def split: if_splits)
    with c show ?thesis using consistent_frame [OF core_logger] by blast
  next
    case (Inr rows)
    with assms(2) have "s' = fold startStream (findAll (queries s ! i) rows)
        (s\<lparr>queries := remove_nth i (queries s)\<rparr>)"
      by (auto simp: queryDone_def Let_def split: if_splits)
    with c show ?thesis by (simp add: consistent_forEach_startStream)
  qed
qed

lemma endCallback_core:
  "timers (endCallback user code s) =
     (if code = 420
      then timers s @ [\<lparr>tid = next_handle s, due = now s + 900000, period = None,
                        closure = DeleteStream user (streams s (uid user))\<rparr>]
      else timers s)"
  "next_handle (endCallback user code s) = (if code = 420 then Suc (next_handle s) else next_handle s)"
  "requests (endCallback user code s) = requests s"
  "updateBlocksTimers (endCallback user code s) = updateBlocksTimers s"
  "now (endCallback user code s) = now s"
  "notified (endCallback user code s) = notified s"
  "updated (endCallback user code s) = updated s"
  by (simp_all add: endCallback_def Let_def logger_def setTimeout_def verifyCredentials_def)

lemma consistent_endCallback:
  assumes "consistent s"
  shows "consistent (endCallback user code s)"
  using assms unfolding consistent_def endCallback_core
  by (cases "code = 420") (auto simp: less_Suc_eq)

lemma consistent_close:
  assumes "consistent s"
  shows "consistent (s\<lparr>requests := filter (\<lambda>p. fst p \<noteq> req) (requests s)\<rparr>)"
  using assms by (auto simp: consistent_def distinct_map_filter)

lemma run_callback_core:
  "timers (run_callback cb s) = timers s"
  "next_handle (run_callback cb s) = next_handle s"
  "requests (run_callback cb s) = requests s"
  "updateBlocksTimers (run_callback cb s) = updateBlocksTimers s"
  "now (run_callback cb s) = now s"
  "notified (run_callback cb s) = notified s"
  by (simp_all add: run_callback_def startStreams_def logger_def Let_def split: callback.splits)

lemma find_tidD:
  "find (\<lambda>t. tid t = h) ts = Some tm \<Longrightarrow> tm \<in> set ts \<and> tid tm = h"
  by (auto simp: find_Some_iff)

lemma fire_timers:
  assumes "fire h s = Some s'"
  shows "\<exists>tm. find (\<lambda>t. tid t = h) (timers s) = Some tm \<and> due tm \<le> now s \<and>
     s' = run_callback (closure tm)
           (s\<lparr>timers := filter (\<lambda>t. tid t \<noteq> h) (timers s) @
              (case period tm of None \<Rightarrow> [] | Some p \<Rightarrow> [tm\<lparr>due := now s + p\<rparr>])\<rparr>)"
  using assms by (auto simp: fire_def Let_def split: option.splits if_splits)

lemma consistent_fire:
  assumes "consistent s" and "fire h s = Some s'"
  shows "consistent s'"
proof -
  from fire_timers [OF assms(2)] obtain tm where
    f: "find (\<lambda>t. tid t = h) (timers s) = Some tm" and
    s': "s' = run_callback (closure tm)
           (s\<lparr>timers := filter (\<lambda>t. tid t \<noteq> h) (timers s) @
              (case period tm of None \<Rightarrow> [] | Some p \<Rightarrow> [tm\<lparr>due := now s + p\<rparr>])\<rparr>)"
    by blast
  from find_tidD [OF f] have tm: "tm \<in> set (timers s)" "tid tm = h" by simp_all
  show ?thesis
    unfolding s' consistent_def run_callback_core
    using assms(1) tm
    by (cases "period tm") (auto simp: consistent_def distinct_map_filter)
qed

lemma consistent_exec:
  assumes "consistent s" and "exec parse e s = Some s'"
  shows "consistent s'"
proof (cases e)
  case (Advance d)
  with assms show ?thesis by (auto simp: exec_def consistent_advance)
next
  case (Fire h)
  with assms show ?thesis by (auto simp: exec_def consistent_fire)
next
  case (QueryDone i r)
  with assms show ?thesis by (auto simp: exec_def consistent_queryDone)
next
  case (TimelineDone i r)
  with assms show ?thesis by (auto simp: exec_def dest!: core_timelineDone intro: consistent_frame)
next
  case (ReloadDone i r)
  with assms show ?thesis by (auto simp: exec_def dest!: core_reloadDone intro: consistent_frame)
next
  case (Data req d)
  with assms obtain user where s': "s' = dataCallback parse user d s"
    by (auto simp: exec_def split: option.splits)
  from dataCallback_cases [of s parse user d] obtain s1 where
    "core s1 = core s" and "s' = s1 \<or> s' = handleBlockEvent user s1"
    unfolding s' by blast
  with assms(1) show ?thesis
    using consistent_frame consistent_handleBlockEvent by blast
next
  case (End req code)
  with assms obtain user where
    "s' = endCallback user code (s\<lparr>requests := filter (\<lambda>p. fst p \<noteq> req) (requests s)\<rparr>)"
    by (auto simp: exec_def split: option.splits)
  with assms(1) show ?thesis
    by (simp add: consistent_endCallback consistent_close)
qed

lemma consistent_run:
  "consistent s \<Longrightarrow> run parse es s = Some s' \<Longrightarrow> consistent s'"
proof (induction es arbitrary: s)
  case Nil
  then show ?case by simp
next
  case (Cons e es)
  then show ?case by (auto split: option.splits dest: consistent_exec)
qed

lemma quiet_snoc: "quiet (ts @ [t]) = (quiet ts \<and> (ts = [] \<or> t < last ts + 2000))"
  by (induction ts rule: quiet.induct) auto

lemma debounce_of_Some: "debounce_of cb = Some a \<longleftrightarrow> (\<exists>u. cb = UpdateBlocks u \<and> uid u = a)"
  by (cases cb) auto

lemma in_pending_updates:
  "t \<in> set (pending_updates a s) \<longleftrightarrow>
     t \<in> set (timers s) \<and> (\<exists>u. closure t = UpdateBlocks u \<and> uid u = a)"
  by (auto simp: pending_updates_def debounce_of_Some)

lemma observed_frame:
  assumes "timers s' = timers s" and "notified s' = notified s" and "updated s' = updated s"
  shows "pending_updates a s' = pending_updates a s"
    and "notifications a s' = notifications a s"
    and "reconciliations a s' = reconciliations a s"
  using assms by (simp_all add: pending_updates_def notifications_def reconciliations_def)

lemma debounced_observed:
  assumes "debounced a s" and "now s \<le> now s'"
    and "pending_updates a s' = pending_updates a s"
    and "notifications a s' = notifications a s"
    and "reconciliations a s' = reconciliations a s"
  shows "debounced a s'"
proof -
  have "\<forall>t \<in> set (notifications a s'). t \<le> now s'"
    using assms by (auto simp: debounced_def)
  moreover have "\<forall>c \<in> set (reconciliations a s'). c \<le> now s'"
    using assms by (auto simp: debounced_def)
  moreover have "waiting a s' = waiting a s" "settled a s' = settled a s"
    using assms by (simp_all add: waiting_def settled_def)
  ultimately show ?thesis
    using assms unfolding debounced_def by simp
qed

lemma debounced_frame:
  assumes "now s' = now s" and "timers s' = timers s" and "notified s' = notified s"
    and "updated s' = updated s" and "debounced a s"
  shows "debounced a s'"
  using assms debounced_observed [of a s s'] observed_frame [of s' s a] by simp

lemma debounced_main: "debounced a (main t0)"
  by (simp add: debounced_def pending_updates_def notifications_def reconciliations_def
      main_def setInterval_def startStreams_def loaded_def logger_def Let_def)

lemma debounced_advance:
  assumes "debounced a s"
  shows "debounced a (s\<lparr>now := now s + d\<rparr>)"
  using assms debounced_observed [of a s "s\<lparr>now := now s + d\<rparr>"]
    observed_frame [of "s\<lparr>now := now s + d\<rparr>" s a] by simp

lemma consistent_registered:
  "consistent s \<Longrightarrow> t \<in> set (timers s) \<Longrightarrow> debounce_of (closure t) = Some a \<Longrightarrow>
     updateBlocksTimers s a = Some (tid t)"
  by (auto simp: consistent_def debounce_of_Some)

lemma consistent_owned:
  "consistent s \<Longrightarrow> updateBlocksTimers s x = Some (tid t) \<Longrightarrow> t \<in> set (timers s) \<Longrightarrow>
     debounce_of (closure t) = Some x"
  unfolding consistent_def debounce_of_Some by blast

lemma consistent_distinct: "consistent s \<Longrightarrow> distinct (map tid (timers s))"
  by (simp add: consistent_def)

lemma handleBlockEvent_notified:
  "notified (handleBlockEvent r s) = notified s @ [(now s, uid r)]"
  by (simp add: handleBlockEvent_def Let_def setTimeout_def clearTimeout_def split: option.splits)

lemma handleBlockEvent_pending:
  assumes "consistent s"
  shows "pending_updates a (handleBlockEvent r s) =
     (if uid r = a
      then [\<lparr>tid = next_handle s, due = now s + 2000, period = None, closure = UpdateBlocks r\<rparr>]
      else pending_updates a s)"
proof (cases "uid r = a")
  case True
  have "\<forall>t \<in> set (timers s). debounce_of (closure t) = Some a \<longrightarrow>
          updateBlocksTimers s (uid r) = Some (tid t)"
    using consistent_registered [OF assms] True by simp
  then have "filter (\<lambda>t. debounce_of (closure t) = Some a)
     (filter (\<lambda>t. updateBlocksTimers s (uid r) \<noteq> Some (tid t)) (timers s)) = []"
    by (auto simp: filter_empty_conv)
  with True show ?thesis
    by (simp add: pending_updates_def handleBlockEvent_core)
next
  case False
  have "\<forall>t \<in> set (timers s). debounce_of (closure t) = Some a \<longrightarrow>
          updateBlocksTimers s (uid r) \<noteq> Some (tid t)"
  proof (intro ballI impI notI)
    fix t
    assume t: "t \<in> set (timers s)" and a: "debounce_of (closure t) = Some a"
      and reg: "updateBlocksTimers s (uid r) = Some (tid t)"
    from consistent_owned [OF assms reg t] a False show False by simp
  qed
  then have "filter (\<lambda>t. debounce_of (closure t) = Some a)
     (filter (\<lambda>t. updateBlocksTimers s (uid r) \<noteq> Some (tid t)) (timers s)) =
     filter (\<lambda>t. debounce_of (closure t) = Some a) (timers s)"
    by (auto intro: filter_cong)
  with False show ?thesis
    by (simp add: pending_updates_def handleBlockEvent_core)
qed

lemma handleBlockEvent_notifications:
  "notifications a (handleBlockEvent r s) =
     notifications a s @ (if uid r = a then [now s] else [])"
  by (simp add: notifications_def handleBlockEvent_notified)

lemma handleBlockEvent_reconciliations:
  "reconciliations a (handleBlockEvent r s) = reconciliations a s"
  by (simp add: reconciliations_def handleBlockEvent_core)

lemma debounced_handleBlockEvent:
  assumes "consistent s" and "debounced a s"
  shows "debounced a (handleBlockEvent r s)"
proof (cases "uid r = a")
  case False
  with assms show ?thesis
    using debounced_observed [of a s "handleBlockEvent r s"]
    by (simp add: handleBlockEvent_pending handleBlockEvent_notifications
        handleBlockEvent_reconciliations handleBlockEvent_core)
next
  case True
  let ?s' = "handleBlockEvent r s"
  have n: "notifications a ?s' = notifications a s @ [now s]"
    using True by (simp add: handleBlockEvent_notifications)
  have p: "pending_updates a ?s' =
     [\<lparr>tid = next_handle s, due = now s + 2000, period = None, closure = UpdateBlocks r\<rparr>]"
    using True assms(1) by (simp add: handleBlockEvent_pending)
  have past: "\<forall>t \<in> set (notifications a ?s'). t \<le> now ?s'"
    using assms(2) by (auto simp: n debounced_def handleBlockEvent_core)
  have past': "\<forall>c \<in> set (reconciliations a ?s'). c \<le> now ?s'"
    using assms(2) by (auto simp: debounced_def handleBlockEvent_core
        handleBlockEvent_reconciliations)
  have "waiting a ?s'" if q: "quiet (notifications a ?s')"
  proof -
    from q have q0: "quiet (notifications a s)"
      and gap: "notifications a s = [] \<or> now s < last (notifications a s) + 2000"
      by (simp_all add: n quiet_snoc)
    have "reconciliations a s = []"
    proof (cases "notifications a s = []")
      case True
      with assms(2) q0 show ?thesis by (simp add: debounced_def)
    next
      case False
      with assms(2) q0 have "waiting a s \<or> settled a s"
        by (simp add: debounced_def)
      moreover have "\<not> settled a s"
      proof
        assume "settled a s"
        then obtain c where c: "reconciliations a s = [c]"
          "last (notifications a s) + 2000 \<le> c"
          by (auto simp: settled_def)
        with assms(2) have "c \<le> now s" by (simp add: debounced_def)
        with c gap False show False by simp
      qed
      ultimately show ?thesis by (auto simp: waiting_def)
    qed
    then show ?thesis
      using True by (simp add: waiting_def p n handleBlockEvent_reconciliations)
  qed
  with past past' show ?thesis
    by (simp add: debounced_def n)
qed

lemma distinct_tid_unique:
  assumes "distinct (map tid ts)" and "x \<in> set ts" and "y \<in> set ts" and "tid x = tid y"
  shows "x = y"
  using assms by (meson distinct_map inj_onD)

lemma fire_pending:
  assumes c: "consistent s" and f: "find (\<lambda>t. tid t = h) (timers s) = Some tm"
  shows "pending_updates a
           (s\<lparr>timers := filter (\<lambda>t. tid t \<noteq> h) (timers s) @
              (case period tm of None \<Rightarrow> [] | Some p \<Rightarrow> [tm\<lparr>due := now s + p\<rparr>])\<rparr>) =
         (if debounce_of (closure tm) = Some a
          then (case period tm of None \<Rightarrow> [] | Some p \<Rightarrow> [tm\<lparr>due := now s + p\<rparr>])
          else pending_updates a s)"
proof -
  from find_tidD [OF f] have tm: "tm \<in> set (timers s)" "tid tm = h" by simp_all
  from c have d: "distinct (map tid (timers s))" by (simp add: consistent_def)
  have u: "\<And>t. t \<in> set (timers s) \<Longrightarrow> tid t = h \<Longrightarrow> t = tm"
    using distinct_tid_unique [OF d _ tm(1)] tm(2) by simp
  show ?thesis
  proof (cases "debounce_of (closure tm) = Some a")
    case True
    have "\<And>t. t \<in> set (timers s) \<Longrightarrow> debounce_of (closure t) = Some a \<Longrightarrow> tid t = h"
    proof -
      fix t assume t: "t \<in> set (timers s)" "debounce_of (closure t) = Some a"
      from c t have "updateBlocksTimers s a = Some (tid t)"
        unfolding consistent_def debounce_of_Some by blast
      moreover from c tm(1) True have "updateBlocksTimers s a = Some (tid tm)"
        unfolding consistent_def debounce_of_Some by blast
      ultimately show "tid t = h" using tm(2) by simp
    qed
    then have "filter (\<lambda>t. debounce_of (closure t) = Some a)
        (filter (\<lambda>t. tid t \<noteq> h) (timers s)) = []"
      by (auto simp: filter_empty_conv)
    with True show ?thesis
      by (simp add: pending_updates_def split: option.splits)
  next
    case False
    have "\<And>t. t \<in> set (timers s) \<Longrightarrow> debounce_of (closure t) = Some a \<Longrightarrow> tid t \<noteq> h"
      using u False by blast
    then have "filter (\<lambda>t. debounce_of (closure t) = Some a)
        (filter (\<lambda>t. tid t \<noteq> h) (timers s)) =
        filter (\<lambda>t. debounce_of (closure t) = Some a) (timers s)"
      by (auto intro: filter_cong)
    with False show ?thesis
      by (simp add: pending_updates_def split: option.splits)
  qed
qed

lemma run_callback_updated:
  "updated (run_callback cb s) =
     (case cb of UpdateBlocks u \<Rightarrow> updated s @ [(now s, u)] | _ \<Rightarrow> updated s)"
  by (simp add: run_callback_def startStreams_def logger_def Let_def split: callback.splits)

lemma run_callback_reconciliations:
  "reconciliations a (run_callback cb s) =
     (if debounce_of cb = Some a then reconciliations a s @ [now s] else reconciliations a s)"
  by (cases cb) (simp_all add: reconciliations_def run_callback_updated)

lemma run_callback_obs:
  "pending_updates a (run_callback cb s) = pending_updates a s"
  "notifications a (run_callback cb s) = notifications a s"
  by (simp_all add: pending_updates_def notifications_def run_callback_core)

lemma debounced_fire:
  assumes c: "consistent s" and d: "debounced a s" and f: "fire h s = Some s'"
  shows "debounced a s'"
proof -
  from fire_timers [OF f] obtain tm where
    fd: "find (\<lambda>t. tid t = h) (timers s) = Some tm" and due: "due tm \<le> now s" and
    s': "s' = run_callback (closure tm)
           (s\<lparr>timers := filter (\<lambda>t. tid t \<noteq> h) (timers s) @
              (case period tm of None \<Rightarrow> [] | Some p \<Rightarrow> [tm\<lparr>due := now s + p\<rparr>])\<rparr>)"
    by blast
  let ?s1 = "s\<lparr>timers := filter (\<lambda>t. tid t \<noteq> h) (timers s) @
              (case period tm of None \<Rightarrow> [] | Some p \<Rightarrow> [tm\<lparr>due := now s + p\<rparr>])\<rparr>"
  from find_tidD [OF fd] have tm: "tm \<in> set (timers s)" "tid tm = h" by simp_all
  have n: "notifications a s' = notifications a s"
    by (simp add: s' run_callback_obs, simp add: notifications_def)
  have t: "now s' = now s"
    by (simp add: s' run_callback_core)
  have p: "pending_updates a s' =
         (if debounce_of (closure tm) = Some a
          then (case period tm of None \<Rightarrow> [] | Some p \<Rightarrow> [tm\<lparr>due := now s + p\<rparr>])
          else pending_updates a s)"
    unfolding s' run_callback_obs using fire_pending [OF c fd] .
  have r: "reconciliations a s' =
     (if debounce_of (closure tm) = Some a then reconciliations a s @ [now s]
      else reconciliations a s)"
    by (simp add: s' run_callback_reconciliations, simp add: reconciliations_def)
  show ?thesis
  proof (cases "debounce_of (closure tm) = Some a")
    case False
    with d show ?thesis
      using debounced_observed [of a s s'] by (simp add: n t p r)
  next
    case True
    with tm(1) have mem: "tm \<in> set (pending_updates a s)"
      by (simp add: pending_updates_def)
    have past: "\<forall>t \<in> set (notifications a s'). t \<le> now s'"
      using d by (simp add: debounced_def n t)
    have past': "\<forall>c \<in> set (reconciliations a s'). c \<le> now s'"
      using d True by (auto simp: debounced_def r t)
    have "notifications a s' \<noteq> [] \<and> settled a s'" if q: "quiet (notifications a s')"
    proof -
      from q have q0: "quiet (notifications a s)" by (simp add: n)
      from mem have ne: "pending_updates a s \<noteq> []" by auto
      from d q0 ne have nn: "notifications a s \<noteq> []"
        by (auto simp: debounced_def)
      with d q0 have "waiting a s \<or> settled a s"
        by (simp add: debounced_def)
      with ne have w: "waiting a s"
        by (auto simp: settled_def)
      then obtain h' u where pu: "pending_updates a s =
          [\<lparr>tid = h', due = last (notifications a s) + 2000, period = None,
            closure = UpdateBlocks u\<rparr>]" and r0: "reconciliations a s = []"
        by (auto simp: waiting_def)
      from mem pu have tmeq: "tm = \<lparr>tid = h', due = last (notifications a s) + 2000,
          period = None, closure = UpdateBlocks u\<rparr>" by simp
      then have "period tm = None" "due tm = last (notifications a s) + 2000" by simp_all
      with True due r0 nn show ?thesis
        by (simp add: settled_def p r n)
    qed
    with past past' show ?thesis
      by (simp add: debounced_def)
  qed
qed

lemma debounced_endCallback:
  assumes "debounced a s"
  shows "debounced a (endCallback user code s)"
proof -
  have "pending_updates a (endCallback user code s) = pending_updates a s"
    by (simp add: pending_updates_def endCallback_core)
  moreover have "notifications a (endCallback user code s) = notifications a s"
    by (simp add: notifications_def endCallback_core)
  moreover have "reconciliations a (endCallback user code s) = reconciliations a s"
    by (simp add: reconciliations_def endCallback_core)
  ultimately show ?thesis
    using assms debounced_observed [of a s "endCallback user code s"]
    by (simp add: endCallback_core)
qed

lemma forEach_startStream_obs:
  "now (fold startStream us s) = now s \<and> timers (fold startStream us s) = timers s \<and>
   notified (fold startStream us s) = notified s \<and> updated (fold startStream us s) = updated s"
  by (induction us arbitrary: s) (simp_all add: startStream_core)

lemma debounced_queryDone:
  assumes "debounced a s" and "queryDone i r s = Some s'"
  shows "debounced a s'"
proof -
  have "now s' = now s \<and> timers s' = timers s \<and> notified s' = notified s \<and>
        updated s' = updated s"
    using assms(2)
    by (cases r) (auto simp: queryDone_def Let_def logger_def forEach_startStream_obs
        split: if_splits)
  with assms(1) show ?thesis
    using debounced_frame by blast
qed

lemma debounced_exec:
  assumes "consistent s" and "debounced a s" and "exec parse e s = Some s'"
  shows "debounced a s'"
proof (cases e)
  case (Advance d)
  with assms show ?thesis by (auto simp: exec_def debounced_advance)
next
  case (Fire h)
  with assms show ?thesis by (auto simp: exec_def debounced_fire)
next
  case (QueryDone i r)
  with assms show ?thesis by (auto simp: exec_def debounced_queryDone)
next
  case (TimelineDone i r)
  with assms have "core s' = core s" by (auto simp: exec_def dest: core_timelineDone)
  with assms(2) show ?thesis
    using debounced_frame core_eqD by metis
next
  case (ReloadDone i r)
  with assms have "core s' = core s" by (auto simp: exec_def dest: core_reloadDone)
  with assms(2) show ?thesis
    using debounced_frame core_eqD by metis
next
  case (Data req d)
  with assms obtain user where s': "s' = dataCallback parse user d s"
    by (auto simp: exec_def split: option.splits)
  from dataCallback_cases [of s parse user d] obtain s1 where
    s1: "core s1 = core s" and or: "s' = s1 \<or> s' = handleBlockEvent user s1"
    unfolding s' by blast
  from s1 assms(2) have d1: "debounced a s1"
    using debounced_frame core_eqD by metis
  from s1 assms(1) have c1: "consistent s1"
    using consistent_frame by blast
  from or d1 c1 show ?thesis
    using debounced_handleBlockEvent by blast
next
  case (End req code)
  with assms obtain user where
    s': "s' = endCallback user code (s\<lparr>requests := filter (\<lambda>p. fst p \<noteq> req) (requests s)\<rparr>)"
    by (auto simp: exec_def split: option.splits)
  have "debounced a (s\<lparr>requests := filter (\<lambda>p. fst p \<noteq> req) (requests s)\<rparr>)"
    using assms(2) debounced_frame by simp
  then show ?thesis
    unfolding s' by (rule debounced_endCallback)
qed

lemma invariants_run:
  "consistent s \<Longrightarrow> debounced a s \<Longrightarrow> run parse es s = Some s' \<Longrightarrow>
     consistent s' \<and> debounced a s'"
proof (induction es arbitrary: s)
  case Nil
  then show ?case by simp
next
  case (Cons e es)
  from Cons.prems(3) obtain s1 where e: "exec parse e s = Some s1" and
    r: "run parse es s1 = Some s'"
    by (auto split: option.splits)
  from Cons.prems(1) e have "consistent s1" by (rule consistent_exec)
  moreover from Cons.prems(1,2) e have "debounced a s1" by (rule debounced_exec)
  ultimately show ?case using r Cons.IH by blast
qed

lemma filter_key_le_1:
  assumes "distinct (map f xs)" and "\<forall>x \<in> set xs. P x \<longrightarrow> f x = k"
  shows "length (filter P xs) \<le> 1"
  using assms
proof (induction xs)
  case Nil
  then show ?case by simp
next
  case (Cons x xs)
  show ?case
  proof (cases "P x")
    case False
    with Cons show ?thesis by simp
  next
    case True
    with Cons.prems have k: "f x = k" by simp
    from Cons.prems(1) have fresh: "f x \<notin> f ` set xs" by simp
    have "\<not> P y" if y: "y \<in> set xs" for y
    proof
      assume "P y"
      with y Cons.prems(2) have "f y = k" by simp
      with k y fresh show False by (metis image_eqI)
    qed
    then have "filter P xs = []" by (simp add: filter_empty_conv)
    with True show ?thesis by simp
  qed
qed

lemma find_tid_unique:
  "distinct (map tid ts) \<Longrightarrow> tm \<in> set ts \<Longrightarrow> find (\<lambda>t. tid t = tid tm) ts = Some tm"
proof (induction ts)
  case Nil
  then show ?case by simp
next
  case (Cons x ts)
  show ?case
  proof (cases "tm = x")
    case True
    then show ?thesis by simp
  next
    case False
    with Cons.prems have "tm \<in> set ts" by simp
    with Cons.prems(1) have "tid x \<noteq> tid tm" by (metis distinct.simps(2) image_eqI list.simps(9) list.set_map)
    with Cons \<open>tm \<in> set ts\<close> show ?thesis by simp
  qed
qed

lemma burst_run:
  "\<exists>s. run epoch_parse burst (main 0) = Some s \<and> notified s = [(0, ''7''), (1500, ''7'')] \<and>
     timers s = [\<lparr>tid = 0, due = 1000, period = Some 1000, closure = StartStreams\<rparr>] \<and>
     requests s = [(1, alice)] \<and> streams s ''7'' = Some (Request 1)"
  by (simp add: eval_defs)

text \<open>
  Pending reconciliation timers. In every state the module can reach from its start,
  through any sequence of timer firings, completed queries, timeline fetches and reloads,
  delivered items and ended requests, and for every account id, at most one
  \<open>UpdateBlocks\<close> timer is pending, and that timer is the one stored in
  \<open>updateBlocksTimers\<close>.
\<close>

lemma one_pending_update:
  assumes "run parse es (main t0) = Some s"
  shows "length (pending_updates a s) \<le> 1 \<and>
         (\<forall>t \<in> set (pending_updates a s). updateBlocksTimers s a = Some (tid t))"
proof -
  have c: "consistent s"
    using consistent_run [OF consistent_main assms] .
  have reg: "\<forall>t \<in> set (timers s). debounce_of (closure t) = Some a \<longrightarrow>
      updateBlocksTimers s a = Some (tid t)"
    using consistent_registered [OF c] by blast
  have 2: "length (pending_updates a s) \<le> 1"
  proof (cases "updateBlocksTimers s a")
    case None
    with reg have "pending_updates a s = []"
      by (auto simp: pending_updates_def filter_empty_conv)
    then show ?thesis by simp
  next
    case (Some h)
    with reg have "\<forall>t \<in> set (timers s). debounce_of (closure t) = Some a \<longrightarrow> tid t = h"
      by auto
    with consistent_distinct [OF c] show ?thesis
      unfolding pending_updates_def by (rule filter_key_le_1)
  qed
  have 3: "\<forall>t \<in> set (pending_updates a s). updateBlocksTimers s a = Some (tid t)"
    using reg by (simp add: pending_updates_def)
  from 2 3 show ?thesis by blast
qed

text \<open>
  C2 does not hold of the sessions. \<open>startStream\<close> stores the new request under the uid
  without looking for one already there, and the query that selected the user excluded
  the streaming ids of the moment \<open>startStreams\<close> ran, not of the moment its callback
  runs. In \<open>stacked\<close> the interval fires while the first query is still pending, both
  queries were built from the same streaming ids, and both return alice: two requests
  are then open for her uid, both able to deliver items, and \<open>streams\<close> holds only the
  second. The source speaks of this itself: the streams are recorded "so we don't
  repeatedly try to start the same streams", stacked interval calls "get the same users
  each time", and losing track of connections is the bug the 420 branch tries to contain.
\<close>

theorem duplicate_sessions:
  "\<exists>s. run epoch_parse stacked (main 0) = Some s \<and>
     open_sessions ''7'' s = [(1, alice), (2, alice)] \<and>
     streams s ''7'' = Some (Request 2) \<and>
     exec epoch_parse (Data 1 None) s = Some s \<and>
     exec epoch_parse (Data 2 None) s = Some s"
  by (simp add: stacked_def open_sessions_def eval_defs)

text \<open>
  C5. In every reachable state in which \<open>handleBlockEvent\<close> has been called for an
  account at least once, each call less than 2000 ms after the one before: either
  exactly one timer is pending for the account, due 2000 ms after the last call, no
  reconciliation call has been made, and once the clock has reached that time the timer
  can fire, after which the account has exactly one call, made at that moment, and no
  pending timer; or no timer is pending and exactly one call has been made, no earlier
  than 2000 ms after the last notification.
\<close>

theorem debounce_single_call:
  assumes "run parse es (main t0) = Some s"
    and "notifications a s \<noteq> []" and "quiet (notifications a s)"
  shows "((\<exists>h u. pending_updates a s =
            [\<lparr>tid = h, due = last (notifications a s) + 2000, period = None,
              closure = UpdateBlocks u\<rparr>] \<and>
          uid u = a \<and> reconciliations a s = [] \<and>
          (\<forall>d. last (notifications a s) + 2000 \<le> now s + d \<longrightarrow>
             (\<exists>s'. run parse [Advance d, Fire h] s = Some s' \<and>
                pending_updates a s' = [] \<and> reconciliations a s' = [now s + d]))) \<or>
         (pending_updates a s = [] \<and>
          (\<exists>c. reconciliations a s = [c] \<and> last (notifications a s) + 2000 \<le> c))) \<and>
         (\<forall>u. uid u = a \<longrightarrow>
            pending_updates a (handleBlockEvent u s) =
              [\<lparr>tid = next_handle s, due = now s + 2000, period = None,
                closure = UpdateBlocks u\<rparr>])"
proof -
  from invariants_run [OF consistent_main debounced_main assms(1)]
  have c: "consistent s" and d: "debounced a s" by simp_all
  have fresh: "\<forall>u. uid u = a \<longrightarrow>
            pending_updates a (handleBlockEvent u s) =
              [\<lparr>tid = next_handle s, due = now s + 2000, period = None,
                closure = UpdateBlocks u\<rparr>]"
    using handleBlockEvent_pending [OF c] by simp
  from d assms(2,3) have "waiting a s \<or> settled a s"
    by (simp add: debounced_def)
  then have "(\<exists>h u. pending_updates a s =
            [\<lparr>tid = h, due = last (notifications a s) + 2000, period = None,
              closure = UpdateBlocks u\<rparr>] \<and>
          uid u = a \<and> reconciliations a s = [] \<and>
          (\<forall>d. last (notifications a s) + 2000 \<le> now s + d \<longrightarrow>
             (\<exists>s'. run parse [Advance d, Fire h] s = Some s' \<and>
                pending_updates a s' = [] \<and> reconciliations a s' = [now s + d]))) \<or>
         (pending_updates a s = [] \<and>
          (\<exists>c. reconciliations a s = [c] \<and> last (notifications a s) + 2000 \<le> c))"
  proof
    assume "settled a s"
    then show ?thesis by (simp add: settled_def)
  next
    assume "waiting a s"
    then obtain h u where pu: "pending_updates a s =
            [\<lparr>tid = h, due = last (notifications a s) + 2000, period = None,
              closure = UpdateBlocks u\<rparr>]" and u: "uid u = a" and r0: "reconciliations a s = []"
      by (auto simp: waiting_def)
    let ?tm = "\<lparr>tid = h, due = last (notifications a s) + 2000, period = None,
              closure = UpdateBlocks u\<rparr>"
    have "?tm \<in> set (pending_updates a s)" by (simp add: pu)
    then have mem: "?tm \<in> set (timers s)" by (simp add: pending_updates_def)
    have fd: "find (\<lambda>t. tid t = h) (timers s) = Some ?tm"
      using find_tid_unique [OF consistent_distinct [OF c] mem] by simp
    have "\<exists>s'. run parse [Advance d, Fire h] s = Some s' \<and>
                pending_updates a s' = [] \<and> reconciliations a s' = [now s + d]"
      if due: "last (notifications a s) + 2000 \<le> now s + d" for d
    proof -
      let ?s1 = "s\<lparr>now := now s + d\<rparr>"
      have c1: "consistent ?s1" using c by (rule consistent_advance)
      have fd1: "find (\<lambda>t. tid t = h) (timers ?s1) = Some ?tm" using fd by simp
      let ?s2 = "?s1\<lparr>timers := filter (\<lambda>t. tid t \<noteq> h) (timers ?s1) @
              (case period ?tm of None \<Rightarrow> [] | Some p \<Rightarrow> [?tm\<lparr>due := now ?s1 + p\<rparr>])\<rparr>"
      have f: "fire h ?s1 = Some (run_callback (UpdateBlocks u) ?s2)"
        using fd due by (simp add: fire_def Let_def)
      have "pending_updates a ?s2 = []"
        using fire_pending [OF c1 fd1, of a] u by simp
      then have p': "pending_updates a (run_callback (UpdateBlocks u) ?s2) = []"
        by (simp add: run_callback_obs)
      have "reconciliations a ?s2 = []"
        using r0 by (simp add: reconciliations_def)
      then have r': "reconciliations a (run_callback (UpdateBlocks u) ?s2) = [now s + d]"
        using u by (simp add: run_callback_reconciliations)
      have "run parse [Advance d, Fire h] s = Some (run_callback (UpdateBlocks u) ?s2)"
        using f by (simp add: exec_def)
      with p' r' show ?thesis by blast
    qed
    with pu u r0 show ?thesis by blast
  qed
  with fresh show ?thesis by blast
qed

theorem debounce_single_call_witness:
  "\<exists>s c. run epoch_parse burst (main 0) = Some s \<and>
     notifications ''7'' s = [0, 1500] \<and> quiet [0, 1500] \<and>
     pending_updates ''7'' s = [] \<and> reconciliations ''7'' s = [c] \<and> 3500 \<le> c"
proof -
  obtain s where s: "run epoch_parse burst (main 0) = Some s"
    "notified s = [(0, ''7''), (1500, ''7'')]"
    "timers s = [\<lparr>tid = 0, due = 1000, period = Some 1000, closure = StartStreams\<rparr>]"
    using burst_run by blast
  have n: "notifications ''7'' s = [0, 1500]"
    using s(2) by (simp add: notifications_def)
  have p: "pending_updates ''7'' s = []"
    using s(3) by (simp add: pending_updates_def)
  have "\<exists>c. reconciliations ''7'' s = [c] \<and> 3500 \<le> c"
    using debounce_single_call [OF s(1), of "''7''"] by (simp add: n p)
  with s(1) n p show ?thesis by simp
qed

end
